theory Spec2Isabelle
  imports Main
begin

section \<open>Data model of \<open>async/async_context.ts\<close>\<close>

text \<open>
  Objects are identified by references; two references are the same object exactly when
  they are equal (\<open>===\<close> on objects). Any object can serve as a context: it then carries
  the two optional symbol-keyed properties of the interface \<open>Context\<close>. An object that was
  never initialised has neither, which is the record with both fields \<open>None\<close>.
\<close>

type_synonym ref = nat

datatype failure = TypeError | Thrown string

text \<open>A small universe of script values, \<open>undefined\<close> among them.\<close>

datatype jsval = Undefined | Num int | Str string

record 'v Context =
  parentContext :: "ref option"
  asyncLocalData :: "(ref \<rightharpoonup> 'v) option"

text \<open>
  A hook callback is user code observing a notification. It works on the observers' own
  state \<open>'u\<close> and either returns or raises; what it did before raising is kept.
  The callbacks do not call back into the module.
  A bundle is an object: \<open>ident\<close> is its identity, the other fields are its optional
  methods.
\<close>

type_synonym 'u callback = "'u \<Rightarrow> failure option \<times> 'u"

record 'u AsyncHookCallbacks =
  ident :: ref
  init :: "(ref \<Rightarrow> ref option \<Rightarrow> 'u callback) option"
  before :: "(ref \<Rightarrow> 'u callback) option"
  after :: "(ref \<Rightarrow> 'u callback) option"
  promiseResolve :: "(ref \<Rightarrow> 'u callback) option"

text \<open>
  The module's globals (\<open>contextStack\<close>, \<open>asyncHookCallbacks\<close>,
  \<open>promiseTrackingEnabled\<close>), the store of context objects, the allocator of
  fresh objects and the observers' state. The top of the stack is the last element.
\<close>

record ('v, 'u) state =
  heap :: "ref \<Rightarrow> 'v Context"
  nextRef :: ref
  contextStack :: "ref list"
  asyncHookCallbacks :: "'u AsyncHookCallbacks list"
  promiseTrackingEnabled :: bool
  observer :: 'u

type_synonym ('a, 'v, 'u) outcome = "(failure + 'a) \<times> ('v, 'u) state"

record AsyncContext =
  contextObject :: ref

record 'u AsyncHook =
  callbacks :: "'u AsyncHookCallbacks"

record 'v AsyncLocal =
  localId :: ref
  initialValue :: 'v

section \<open>The lifecycle dispatcher\<close>

text \<open>\<open>AsyncContext.current()\<close>: \<open>contextStack.at(-1)\<close>, \<open>undefined\<close> on the empty stack.\<close>

definition current :: "('v, 'u) state \<Rightarrow> ref option" where
  "current s = (if contextStack s = [] then None else Some (last (contextStack s)))"

definition parentOf :: "('v, 'u) state \<Rightarrow> ref \<Rightarrow> ref option" where
  "parentOf s context = parentContext (heap s context)"

text \<open>
  The loop \<open>for (const { m } of asyncHookCallbacks) if (m) m(...)\<close>: bundles are visited
  in list order, a bundle without the method is skipped, and a callback that raises ends
  the loop with its failure.
\<close>

fun forEachHook ::
  "('u AsyncHookCallbacks \<Rightarrow> 'u callback option) \<Rightarrow> 'u AsyncHookCallbacks list \<Rightarrow> 'u callback" where
  "forEachHook m [] u = (None, u)"
| "forEachHook m (h # hs) u =
     (case m h of
        None \<Rightarrow> forEachHook m hs u
      | Some f \<Rightarrow>
          (case f u of
             (None, u') \<Rightarrow> forEachHook m hs u'
           | (Some e, u') \<Rightarrow> (Some e, u')))"

text \<open>The call a notification makes on one bundle, when the bundle has the method.\<close>

definition initOf :: "ref \<Rightarrow> ref option \<Rightarrow> 'u AsyncHookCallbacks \<Rightarrow> 'u callback option" where
  "initOf context parent h = map_option (\<lambda>f. f context parent) (init h)"

definition beforeOf :: "ref \<Rightarrow> 'u AsyncHookCallbacks \<Rightarrow> 'u callback option" where
  "beforeOf context h = map_option (\<lambda>f. f context) (before h)"

definition afterOf :: "ref \<Rightarrow> 'u AsyncHookCallbacks \<Rightarrow> 'u callback option" where
  "afterOf context h = map_option (\<lambda>f. f context) (after h)"

definition promiseResolveOf :: "ref \<Rightarrow> 'u AsyncHookCallbacks \<Rightarrow> 'u callback option" where
  "promiseResolveOf promise h = map_option (\<lambda>f. f promise) (promiseResolve h)"

definition dispatch ::
  "('u AsyncHookCallbacks \<Rightarrow> 'u callback option) \<Rightarrow> ('v, 'u) state \<Rightarrow> (unit, 'v, 'u) outcome" where
  "dispatch m s =
     (case forEachHook m (asyncHookCallbacks s) (observer s) of
        (None, u) \<Rightarrow> (Inr (), s\<lparr>observer := u\<rparr>)
      | (Some e, u) \<Rightarrow> (Inl e, s\<lparr>observer := u\<rparr>))"

definition onInitContext :: "ref \<Rightarrow> ('v, 'u) state \<Rightarrow> (unit, 'v, 'u) outcome" where
  "onInitContext context s =
     (let s1 = s\<lparr>heap := (heap s)(context := (heap s context)\<lparr>parentContext := current s\<rparr>)\<rparr>
      in dispatch (initOf context (parentContext (heap s1 context))) s1)"

definition onBeforeContext :: "ref \<Rightarrow> ('v, 'u) state \<Rightarrow> (unit, 'v, 'u) outcome" where
  "onBeforeContext context s =
     (let s1 = s\<lparr>contextStack := contextStack s @ [context]\<rparr>
      in dispatch (beforeOf context) s1)"

text \<open>\<open>Array.prototype.pop\<close>: the removed last element, \<open>undefined\<close> on the empty array.\<close>

definition pop :: "'a list \<Rightarrow> 'a option \<times> 'a list" where
  "pop xs = (if xs = [] then (None, []) else (Some (last xs), butlast xs))"

definition onAfterContext :: "ref \<Rightarrow> ('v, 'u) state \<Rightarrow> (unit, 'v, 'u) outcome" where
  "onAfterContext context s =
     (let (previousContext, stack1) = pop (contextStack s);
          stack2 = (case previousContext of
                      None \<Rightarrow> stack1
                    | Some p \<Rightarrow> if p \<noteq> context then stack1 @ [p] else stack1);
          s1 = s\<lparr>contextStack := stack2\<rparr>
      in dispatch (afterOf context) s1)"


text \<open>
  \<open>enablePromiseTracking\<close> hands the four handlers above to the runtime once; in the
  model only the flag is left of it.
\<close>

definition enablePromiseTracking :: "('v, 'u) state \<Rightarrow> ('v, 'u) state" where
  "enablePromiseTracking s =
     (if \<not> promiseTrackingEnabled s then s\<lparr>promiseTrackingEnabled := True\<rparr> else s)"

section \<open>The classes\<close>

subsection \<open>\<open>AsyncContext\<close>\<close>

text \<open>
  \<open>new AsyncContext(contextObject?)\<close>: the new object is \<open>this\<close>; its context object is
  the argument when there is one and \<open>this\<close> otherwise, and it is initialised either way.
\<close>

definition AsyncContext_new ::
  "ref option \<Rightarrow> ('v, 'u) state \<Rightarrow> (AsyncContext, 'v, 'u) outcome" where
  "AsyncContext_new arg s =
     (let this = nextRef s;
          s1 = s\<lparr>nextRef := Suc this\<rparr>;
          obj = (case arg of None \<Rightarrow> this | Some c \<Rightarrow> c)
      in case onInitContext obj s1 of
           (Inl e, s2) \<Rightarrow> (Inl e, s2)
         | (Inr _, s2) \<Rightarrow> (Inr \<lparr>contextObject = obj\<rparr>, s2))"

text \<open>
  \<open>try { return callback(...args) } finally { onAfterContext(...) }\<close>: the callback is a
  computation on the state with a result or a failure (its arguments are part of it).
  The notification before it is outside the \<open>try\<close>; a failure raised inside \<open>finally\<close>
  replaces the outcome of the callback.
\<close>

definition runInScope ::
  "AsyncContext \<Rightarrow> (('v, 'u) state \<Rightarrow> ('r, 'v, 'u) outcome) \<Rightarrow> ('v, 'u) state \<Rightarrow> ('r, 'v, 'u) outcome" where
  "runInScope this callback s =
     (case onBeforeContext (contextObject this) s of
        (Inl e, s1) \<Rightarrow> (Inl e, s1)
      | (Inr _, s1) \<Rightarrow>
          (case callback s1 of
             (r, s2) \<Rightarrow>
               (case onAfterContext (contextObject this) s2 of
                  (Inl e, s3) \<Rightarrow> (Inl e, s3)
                | (Inr _, s3) \<Rightarrow> (r, s3))))"

text \<open>
  Loading the module: all globals empty, then \<open>topLevelContext\<close> is created and pushed.
\<close>

definition empty_state :: "'u \<Rightarrow> ('v, 'u) state" where
  "empty_state u =
     \<lparr>heap = (\<lambda>_. \<lparr>parentContext = None, asyncLocalData = None\<rparr>), nextRef = 0,
      contextStack = [], asyncHookCallbacks = [], promiseTrackingEnabled = False,
      observer = u\<rparr>"

definition module_init :: "'u \<Rightarrow> ('v, 'u) state" where
  "module_init u =
     (case AsyncContext_new None (empty_state u) of
        (Inl e, s) \<Rightarrow> s
      | (Inr topLevelContext, s) \<Rightarrow>
          s\<lparr>contextStack := contextStack s @ [contextObject topLevelContext]\<rparr>)"

subsection \<open>\<open>AsyncHook\<close>\<close>

definition enable :: "'u AsyncHook \<Rightarrow> ('v, 'u) state \<Rightarrow> ('v, 'u) state" where
  "enable this s =
     (let s1 = enablePromiseTracking s
      in s1\<lparr>asyncHookCallbacks := asyncHookCallbacks s1 @ [callbacks this]\<rparr>)"

text \<open>
  \<open>indexOf\<close> compares objects by identity and answers \<open>-1\<close> when there is none;
  \<open>splice(index, 1)\<close> removes the element at \<open>index\<close>.
\<close>

fun indexOf :: "'u AsyncHookCallbacks list \<Rightarrow> 'u AsyncHookCallbacks \<Rightarrow> int" where
  "indexOf [] x = - 1"
| "indexOf (h # hs) x =
     (if ident h = ident x then 0
      else (let i = indexOf hs x in if i < 0 then - 1 else i + 1))"

definition splice1 :: "'a list \<Rightarrow> nat \<Rightarrow> 'a list" where
  "splice1 xs i = take i xs @ drop (Suc i) xs"

definition disable :: "'u AsyncHook \<Rightarrow> ('v, 'u) state \<Rightarrow> ('v, 'u) state" where
  "disable this s =
     (let index = indexOf (asyncHookCallbacks s) (callbacks this)
      in if index \<ge> 0
         then s\<lparr>asyncHookCallbacks := splice1 (asyncHookCallbacks s) (nat index)\<rparr>
         else s)"

subsection \<open>\<open>AsyncLocal\<close>\<close>

definition AsyncLocal_new :: "'v \<Rightarrow> ('v, 'u) state \<Rightarrow> 'v AsyncLocal \<times> ('v, 'u) state" where
  "AsyncLocal_new v s =
     (let s1 = enablePromiseTracking s
      in (\<lparr>localId = nextRef s1, initialValue = v\<rparr>, s1\<lparr>nextRef := Suc (nextRef s1)\<rparr>))"

text \<open>
  \<open>context[asyncLocalDataSymbol]?.has(this)\<close> followed by \<open>.get(this)\<close>: \<open>Some v\<close> when
  the context has a store with an entry for \<open>this\<close>, whatever the value \<open>v\<close> is, and
  \<open>None\<close> when it has no store or the store has no entry.
\<close>

definition lookupLocal :: "'v Context \<Rightarrow> 'v AsyncLocal \<Rightarrow> 'v option" where
  "lookupLocal c this =
     (case asyncLocalData c of None \<Rightarrow> None | Some m \<Rightarrow> m (localId this))"

text \<open>
  The \<open>while (context)\<close> loop of the getter. It has no bound of its own: on a cyclic
  parent chain without a binding it never returns, which is the value \<open>None\<close> here.
\<close>

partial_function (option) value_loop ::
  "(ref \<Rightarrow> 'v Context) \<Rightarrow> 'v AsyncLocal \<Rightarrow> ref option \<Rightarrow> 'v option" where
  "value_loop h this context =
     (case context of
        None \<Rightarrow> Some (initialValue this)
      | Some c \<Rightarrow>
          (case lookupLocal (h c) this of
             Some v \<Rightarrow> Some v
           | None \<Rightarrow> value_loop h this (parentContext (h c))))"

definition get_value :: "'v AsyncLocal \<Rightarrow> ('v, 'u) state \<Rightarrow> 'v option" where
  "get_value this s = value_loop (heap s) this (current s)"

text \<open>
  The setter reads a property of \<open>AsyncContext.current()\<close>, which is a \<open>TypeError\<close>
  when the stack is empty.
\<close>

definition set_value :: "'v AsyncLocal \<Rightarrow> 'v \<Rightarrow> ('v, 'u) state \<Rightarrow> (unit, 'v, 'u) outcome" where
  "set_value this newValue s =
     (case current s of
        None \<Rightarrow> (Inl TypeError, s)
      | Some context \<Rightarrow>
          (let asyncLocalData0 =
                 (case asyncLocalData (heap s context) of None \<Rightarrow> Map.empty | Some m \<Rightarrow> m)
           in (Inr (),
               s\<lparr>heap := (heap s)(context := (heap s context)
                    \<lparr>asyncLocalData := Some (asyncLocalData0(localId this \<mapsto> newValue))\<rparr>)\<rparr>)))"

text \<open>
  The arrow function that \<open>withValue\<close> runs in the scope of the new context: it sets the
  value and then applies the callback.
\<close>

definition withValue_body ::
  "'v AsyncLocal \<Rightarrow> 'v \<Rightarrow> (('v, 'u) state \<Rightarrow> ('r, 'v, 'u) outcome) \<Rightarrow> ('v, 'u) state \<Rightarrow> ('r, 'v, 'u) outcome" where
  "withValue_body this v callback s =
     (case set_value this v s of
        (Inl e, s1) \<Rightarrow> (Inl e, s1)
      | (Inr _, s1) \<Rightarrow> callback s1)"

definition withValue ::
  "'v AsyncLocal \<Rightarrow> 'v \<Rightarrow> (('v, 'u) state \<Rightarrow> ('r, 'v, 'u) outcome) \<Rightarrow> ('v, 'u) state \<Rightarrow> ('r, 'v, 'u) outcome" where
  "withValue this v callback s =
     (case AsyncContext_new None s of
        (Inl e, s1) \<Rightarrow> (Inl e, s1)
      | (Inr context, s1) \<Rightarrow> runInScope context (withValue_body this v callback) s1)"

section \<open>Client code\<close>

text \<open>
  Synchronous client code built from the exported operations that change the state:
  sequencing, raising, creating a context and using it in the rest, running code in the
  scope of a context, setting a local, \<open>withValue\<close>, and registering or unregistering a hook.
\<close>

datatype ('v, 'u) script =
    Return
  | Raise failure
  | Seq "('v, 'u) script" "('v, 'u) script"
  | NewContext "AsyncContext \<Rightarrow> ('v, 'u) script"
  | RunInScope AsyncContext "('v, 'u) script"
  | SetValue "'v AsyncLocal" 'v
  | WithValue "'v AsyncLocal" 'v "('v, 'u) script"
  | Enable "'u AsyncHook"
  | Disable "'u AsyncHook"

primrec run :: "('v, 'u) script \<Rightarrow> ('v, 'u) state \<Rightarrow> (unit, 'v, 'u) outcome" where
  "run Return s = (Inr (), s)"
| "run (Raise e) s = (Inl e, s)"
| "run (Seq p q) s =
     (case run p s of (Inl e, s1) \<Rightarrow> (Inl e, s1) | (Inr _, s1) \<Rightarrow> run q s1)"
| "run (NewContext k) s =
     (case AsyncContext_new None s of
        (Inl e, s1) \<Rightarrow> (Inl e, s1)
      | (Inr c, s1) \<Rightarrow> run (k c) s1)"
| "run (RunInScope c p) s = runInScope c (run p) s"
| "run (SetValue l v) s = set_value l v s"
| "run (WithValue l v p) s = withValue l v (run p) s"
| "run (Enable h) s = (Inr (), enable h s)"
| "run (Disable h) s = (Inr (), disable h s)"

section \<open>Notions used in the statements\<close>

subsection \<open>Hooks\<close>

text \<open>
  The calls a notification has to make: the methods present in the registry, in
  registration order.
\<close>

fun methods ::
  "('u AsyncHookCallbacks \<Rightarrow> 'u callback option) \<Rightarrow> 'u AsyncHookCallbacks list \<Rightarrow> 'u callback list" where
  "methods m [] = []"
| "methods m (h # hs) = (case m h of None \<Rightarrow> methods m hs | Some f \<Rightarrow> f # methods m hs)"

text \<open>Every call of the list made once, in order, each on the state the one before left.\<close>

definition invokeAll :: "'u callback list \<Rightarrow> 'u \<Rightarrow> 'u" where
  "invokeAll fs u = foldl (\<lambda>u f. snd (f u)) u fs"

text \<open>None of the calls ever raises.\<close>

definition quiet :: "'u callback list \<Rightarrow> bool" where
  "quiet fs = (\<forall>f \<in> set fs. \<forall>u. fst (f u) = None)"

text \<open>A bundle is calm when its \<open>before\<close> method, if it has one, never raises.\<close>

definition calm :: "'u AsyncHookCallbacks \<Rightarrow> bool" where
  "calm h = (\<forall>c. quiet (methods (beforeOf c) [h]))"

text \<open>Removal of the first bundle with a given identity, the list unchanged when there is none.\<close>

fun removeFirst :: "ref \<Rightarrow> 'u AsyncHookCallbacks list \<Rightarrow> 'u AsyncHookCallbacks list" where
  "removeFirst i [] = []"
| "removeFirst i (h # hs) = (if ident h = i then hs else h # removeFirst i hs)"

text \<open>The bundles a script may register.\<close>

primrec enabled :: "('v, 'u) script \<Rightarrow> 'u AsyncHookCallbacks set" where
  "enabled Return = {}"
| "enabled (Raise e) = {}"
| "enabled (Seq p q) = enabled p \<union> enabled q"
| "enabled (NewContext k) = (\<Union>c. enabled (k c))"
| "enabled (RunInScope c p) = enabled p"
| "enabled (SetValue l v) = {}"
| "enabled (WithValue l v p) = enabled p"
| "enabled (Enable h) = {callbacks h}"
| "enabled (Disable h) = {}"

subsection \<open>Parent chains\<close>

text \<open>
  \<open>path h a cs b\<close>: following parent links in the store \<open>h\<close> from \<open>a\<close> visits exactly
  the contexts \<open>cs\<close>, in this order, and arrives at \<open>b\<close> (a context, or \<open>None\<close> past a
  context without parent).
\<close>

fun path :: "(ref \<Rightarrow> 'v Context) \<Rightarrow> ref option \<Rightarrow> ref list \<Rightarrow> ref option \<Rightarrow> bool" where
  "path h a [] b = (a = b)"
| "path h a (c # cs) b = (a = Some c \<and> path h (parentContext (h c)) cs b)"

text \<open>
  The reference of \<open>topLevelContext\<close>, the first object the module allocates. A
  reference is a context of a state when it is that one or has a parent link.
\<close>

definition topLevelContext :: ref where
  "topLevelContext = 0"

definition isContext :: "('v, 'u) state \<Rightarrow> ref \<Rightarrow> bool" where
  "isContext s c = (c = topLevelContext \<or> parentContext (heap s c) \<noteq> None)"

text \<open>
  The states the module keeps itself in: the stack is not empty and holds contexts only,
  \<open>topLevelContext\<close> has no parent, and every parent link goes from an allocated object
  to a context allocated before it.
\<close>

definition wellFormed :: "('v, 'u) state \<Rightarrow> bool" where
  "wellFormed s =
     (contextStack s \<noteq> [] \<and> topLevelContext < nextRef s \<and>
      parentContext (heap s topLevelContext) = None \<and>
      list_all (isContext s) (contextStack s) \<and>
      (\<forall>c p. parentContext (heap s c) = Some p \<longrightarrow> p < c \<and> c < nextRef s \<and> isContext s p))"

text \<open>
  A script is scoped in a set of contexts when every \<open>runInScope\<close> in it is on one of
  them or on a context the script itself created before.
\<close>

primrec scoped :: "ref set \<Rightarrow> ('v, 'u) script \<Rightarrow> bool" where
  "scoped C Return = True"
| "scoped C (Raise e) = True"
| "scoped C (Seq p q) = (scoped C p \<and> scoped C q)"
| "scoped C (NewContext k) = (\<forall>c. scoped (insert (contextObject c) C) (k c))"
| "scoped C (RunInScope c p) = (contextObject c \<in> C \<and> scoped C p)"
| "scoped C (SetValue l v) = True"
| "scoped C (WithValue l v p) = scoped C p"
| "scoped C (Enable h) = True"
| "scoped C (Disable h) = True"

text \<open>
  \<open>extends s s'\<close>: \<open>s'\<close> is well formed, nothing allocated in \<open>s\<close> has another parent in
  \<open>s'\<close>, and the stack of \<open>s\<close> is still at the bottom of the stack of \<open>s'\<close>.
\<close>

definition extends :: "('v, 'u) state \<Rightarrow> ('v, 'u) state \<Rightarrow> bool" where
  "extends s s' =
     (wellFormed s' \<and> nextRef s \<le> nextRef s' \<and>
      (\<forall>c. c < nextRef s \<longrightarrow> parentContext (heap s' c) = parentContext (heap s c)) \<and>
      (\<exists>ext. contextStack s' = contextStack s @ ext))"

subsection \<open>\<open>withValue\<close>\<close>

text \<open>
  The state in which \<open>withValue\<close> applies the callback when no hook raises on the way:
  a new context has been created, it has been pushed, and the value has been set.
\<close>

definition withValue_entry :: "'v AsyncLocal \<Rightarrow> 'v \<Rightarrow> ('v, 'u) state \<Rightarrow> ('v, 'u) state" where
  "withValue_entry this v s =
     snd (set_value this v (snd (onBeforeContext (nextRef s) (snd (AsyncContext_new None s)))))"

section \<open>Concrete runs\<close>

text \<open>
  Observers: their state is a log, and every method of \<open>logger i\<close> appends an entry with
  the bundle's identity, the notification and the object notified. \<open>thrower i\<close> has a
  single method, \<open>before\<close>, which raises.
\<close>

type_synonym log = "(ref \<times> string \<times> ref) list"

definition logger :: "ref \<Rightarrow> log AsyncHookCallbacks" where
  "logger i =
     \<lparr>ident = i,
      init = Some (\<lambda>c p u. (None, u @ [(i, ''init'', c)])),
      before = Some (\<lambda>c u. (None, u @ [(i, ''before'', c)])),
      after = Some (\<lambda>c u. (None, u @ [(i, ''after'', c)])),
      promiseResolve = Some (\<lambda>c u. (None, u @ [(i, ''promiseResolve'', c)]))\<rparr>"

definition thrower :: "ref \<Rightarrow> log AsyncHookCallbacks" where
  "thrower i =
     \<lparr>ident = i, init = None,
      before = Some (\<lambda>c u. (Some (Thrown ''before''), u @ [(i, ''before'', c)])),
      after = None, promiseResolve = None\<rparr>"

text \<open>
  The module as loaded (\<open>topLevelContext\<close> is object \<open>0\<close>) with two logging bundles
  registered, \<open>7\<close> before \<open>8\<close>, and with a bundle whose \<open>before\<close> method raises.
\<close>

definition two_loggers :: "(jsval, log) state" where
  "two_loggers = enable \<lparr>callbacks = logger 8\<rparr> (enable \<lparr>callbacks = logger 7\<rparr> (module_init []))"

definition with_thrower :: "(jsval, log) state" where
  "with_thrower = enable \<lparr>callbacks = thrower 9\<rparr> (module_init [])"

text \<open>
  \<open>local0\<close> is an \<open>AsyncLocal\<close> with initial value \<open>"foo"\<close>, created right after loading
  (object \<open>1\<close>); \<open>loaded\<close> is the state then. In \<open>family\<close> the root context binds the
  local to \<open>3\<close>, a child of the root (object \<open>2\<close>) and a child of that child (object
  \<open>3\<close>) are created and resumed, and neither sets the local; \<open>observed\<close> is \<open>family\<close>
  with a logging bundle registered. In \<open>siblings\<close> the root binds the local to \<open>3\<close> and
  two children of the root are created; \<open>A_set\<close>, \<open>B_set\<close> and \<open>A_again\<close> are the
  states after the first one ran and set \<open>10\<close>, after it was suspended and the second
  one ran and set \<open>20\<close>, and after that one was suspended and the first one resumed.
  \<open>rewrapped\<close> is \<open>loaded\<close> after a second wrapper is constructed around the top-level
  context object.
\<close>

definition local0 :: "jsval AsyncLocal" where
  "local0 = fst (AsyncLocal_new (Str ''foo'') (module_init ([] :: log)))"

definition loaded :: "(jsval, log) state" where
  "loaded = snd (AsyncLocal_new (Str ''foo'') (module_init []))"

definition family :: "(jsval, log) state" where
  "family =
     (let s1 = snd (set_value local0 (Num 3) loaded);
          (r2, s2) = AsyncContext_new None s1;
          s3 = snd (onBeforeContext 2 s2);
          (r4, s4) = AsyncContext_new None s3
      in snd (onBeforeContext 3 s4))"

definition observed :: "(jsval, log) state" where
  "observed = enable \<lparr>callbacks = logger 7\<rparr> family"

definition siblings :: "(jsval, log) state" where
  "siblings =
     (let s1 = snd (set_value local0 (Num 3) loaded);
          (r2, s2) = AsyncContext_new None s1;
          (r3, s3) = AsyncContext_new None s2
      in s3)"

definition A_set :: "(jsval, log) state" where
  "A_set = snd (set_value local0 (Num 10) (snd (onBeforeContext 2 siblings)))"

definition B_set :: "(jsval, log) state" where
  "B_set = snd (set_value local0 (Num 20) (snd (onBeforeContext 3 (snd (onAfterContext 2 A_set)))))"

definition A_again :: "(jsval, log) state" where
  "A_again = snd (onBeforeContext 2 (snd (onAfterContext 3 B_set)))"

definition rewrapped :: "(jsval, log) state" where
  "rewrapped = snd (AsyncContext_new (Some topLevelContext) loaded)"

text \<open>
  Two scripts: nested scopes whose innermost callback raises, and the creation of two
  contexts with code run in both.
\<close>

definition nested :: "(jsval, log) script" where
  "nested =
     RunInScope \<lparr>contextObject = topLevelContext\<rparr>
       (WithValue local0 (Num 1)
          (Seq (NewContext (\<lambda>c. RunInScope c (Raise (Thrown ''callback'')))) Return))"

definition two_children :: "(jsval, log) script" where
  "two_children =
     NewContext (\<lambda>a. NewContext (\<lambda>b.
       Seq (RunInScope a (SetValue local0 (Num 10)))
           (RunInScope b (WithValue local0 (Num 20) (Raise (Thrown ''callback''))))))"

section \<open>Properties\<close>

text \<open>The definitions to unfold when a concrete run is evaluated.\<close>

lemmas fixture_defs =
  two_loggers_def module_init_def empty_state_def AsyncContext_new_def onInitContext_def
  dispatch_def enable_def enablePromiseTracking_def current_def Let_def logger_def thrower_def
  initOf_def beforeOf_def afterOf_def promiseResolveOf_def

lemmas family_defs =
  family_def loaded_def local0_def AsyncLocal_new_def set_value_def onBeforeContext_def
  module_init_def empty_state_def AsyncContext_new_def onInitContext_def
  dispatch_def enablePromiseTracking_def current_def Let_def lookupLocal_def

lemmas siblings_defs =
  siblings_def loaded_def local0_def AsyncLocal_new_def set_value_def
  module_init_def empty_state_def AsyncContext_new_def onInitContext_def
  dispatch_def enablePromiseTracking_def current_def Let_def lookupLocal_def

lemmas loaded_defs =
  loaded_def local0_def AsyncLocal_new_def module_init_def empty_state_def
  AsyncContext_new_def onInitContext_def dispatch_def enablePromiseTracking_def
  current_def Let_def lookupLocal_def topLevelContext_def

subsection \<open>Notifications\<close>

lemma dispatch_heap [simp]: "heap (snd (dispatch m s)) = heap s"
  and dispatch_nextRef [simp]: "nextRef (snd (dispatch m s)) = nextRef s"
  and dispatch_contextStack [simp]: "contextStack (snd (dispatch m s)) = contextStack s"
  and dispatch_asyncHookCallbacks [simp]: "asyncHookCallbacks (snd (dispatch m s)) = asyncHookCallbacks s"
  and dispatch_promiseTrackingEnabled [simp]: "promiseTrackingEnabled (snd (dispatch m s)) = promiseTrackingEnabled s"
  by (simp_all add: dispatch_def split: prod.splits option.splits)

lemma methods_append [simp]: "methods m (hs @ hs') = methods m hs @ methods m hs'"
  by (induction hs) (simp_all split: option.splits)

lemma quiet_simps [simp]:
  "quiet []"
  "quiet (f # fs) = ((\<forall>u. fst (f u) = None) \<and> quiet fs)"
  "quiet (fs @ gs) = (quiet fs \<and> quiet gs)"
  by (auto simp: quiet_def)

lemma invokeAll_simps [simp]:
  "invokeAll [] u = u"
  "invokeAll (f # fs) u = invokeAll fs (snd (f u))"
  "invokeAll (fs @ gs) u = invokeAll gs (invokeAll fs u)"
  by (simp_all add: invokeAll_def)


lemma forEachHook_quiet:
  "quiet (methods m hs) \<Longrightarrow> forEachHook m hs u = (None, invokeAll (methods m hs) u)"
proof (induction hs arbitrary: u)
  case Nil
  then show ?case by simp
next
  case (Cons h hs)
  show ?case
  proof (cases "m h")
    case None
    with Cons show ?thesis by simp
  next
    case (Some f)
    with Cons.prems have "fst (f u) = None" and "quiet (methods m hs)" by simp_all
    with Cons.IH Some show ?thesis by (cases "f u") simp
  qed
qed


lemma dispatch_quiet:
  "quiet (methods m (asyncHookCallbacks s)) \<Longrightarrow>
   dispatch m s = (Inr (), s\<lparr>observer := invokeAll (methods m (asyncHookCallbacks s)) (observer s)\<rparr>)"
  by (simp add: dispatch_def forEachHook_quiet)

lemma onAfterContext_stack:
  "contextStack (snd (onAfterContext c s)) =
     (if contextStack s \<noteq> [] \<and> last (contextStack s) = c then butlast (contextStack s)
      else contextStack s)"
  by (simp add: onAfterContext_def pop_def Let_def)



subsection \<open>Registering and unregistering\<close>

lemma indexOf_absent: "ident x \<notin> ident ` set hs \<Longrightarrow> indexOf hs x = - 1"
  by (induction hs) (auto simp: Let_def)

lemma indexOf_present: "ident x \<in> ident ` set hs \<Longrightarrow> 0 \<le> indexOf hs x"
  by (induction hs) (auto simp: Let_def)

lemma splice1_indexOf:
  "0 \<le> indexOf hs x \<Longrightarrow> splice1 hs (nat (indexOf hs x)) = removeFirst (ident x) hs"
proof (induction hs)
  case Nil
  then show ?case by simp
next
  case (Cons h hs)
  show ?case
  proof (cases "ident h = ident x")
    case True
    then show ?thesis by (simp add: splice1_def)
  next
    case False
    with Cons.prems have nn: "0 \<le> indexOf hs x"
      by (simp add: Let_def split: if_splits)
    then have "nat (indexOf hs x + 1) = Suc (nat (indexOf hs x))" by simp
    with False nn Cons.IH show ?thesis
      by (simp add: Let_def splice1_def)
  qed
qed

lemma removeFirst_absent: "i \<notin> ident ` set hs \<Longrightarrow> removeFirst i hs = hs"
  by (induction hs) auto


lemma disable_eq:
  "disable h s = s\<lparr>asyncHookCallbacks := removeFirst (ident (callbacks h)) (asyncHookCallbacks s)\<rparr>"
proof (cases "ident (callbacks h) \<in> ident ` set (asyncHookCallbacks s)")
  case True
  then show ?thesis
    by (simp add: disable_def Let_def indexOf_present splice1_indexOf)
next
  case False
  then show ?thesis
    by (simp add: disable_def Let_def indexOf_absent removeFirst_absent)
qed

lemma removeFirst_once:
  "length (filter (\<lambda>b. ident b = i) hs) \<le> 1 \<Longrightarrow> i \<notin> ident ` set (removeFirst i hs)"
proof (induction hs)
  case Nil
  then show ?case by simp
next
  case (Cons h hs)
  show ?case
  proof (cases "ident h = i")
    case True
    with Cons.prems have "filter (\<lambda>b. ident b = i) hs = []" by simp
    then have "i \<notin> ident ` set hs" by (auto simp: filter_empty_conv)
    with True show ?thesis by simp
  next
    case False
    with Cons show ?thesis by auto
  qed
qed

text \<open>
  Claim C8. \<open>disable\<close> on a bundle that is not in the registry changes nothing, and on a
  bundle that is in the registry at most once a second \<open>disable\<close> changes nothing after
  the first: the whole state, hence every later dispatch, is the same.
\<close>

theorem disable_idempotent:
  "(ident (callbacks h) \<notin> ident ` set (asyncHookCallbacks s) \<longrightarrow> disable h s = s) \<and>
   (length (filter (\<lambda>b. ident b = ident (callbacks h)) (asyncHookCallbacks s)) \<le> 1 \<longrightarrow>
      disable h (disable h s) = disable h s)"
proof (intro conjI impI)
  assume "ident (callbacks h) \<notin> ident ` set (asyncHookCallbacks s)"
  then show "disable h s = s"
    by (simp add: disable_eq removeFirst_absent)
next
  assume "length (filter (\<lambda>b. ident b = ident (callbacks h)) (asyncHookCallbacks s)) \<le> 1"
  then have "ident (callbacks h) \<notin> ident ` set (removeFirst (ident (callbacks h)) (asyncHookCallbacks s))"
    by (rule removeFirst_once)
  then show "disable h (disable h s) = disable h s"
    by (simp add: disable_eq removeFirst_absent)
qed

theorem disable_idempotent_witness:
  "ident (callbacks \<lparr>callbacks = logger 9\<rparr>) \<notin> ident ` set (asyncHookCallbacks two_loggers) \<and>
   disable \<lparr>callbacks = logger 9\<rparr> two_loggers = two_loggers \<and>
   length (filter (\<lambda>b. ident b = ident (callbacks \<lparr>callbacks = logger 7\<rparr>))
     (asyncHookCallbacks two_loggers)) \<le> 1 \<and>
   map ident (asyncHookCallbacks (disable \<lparr>callbacks = logger 7\<rparr> two_loggers)) = [8] \<and>
   disable \<lparr>callbacks = logger 7\<rparr> (disable \<lparr>callbacks = logger 7\<rparr> two_loggers) =
     disable \<lparr>callbacks = logger 7\<rparr> two_loggers"
proof -
  have ids: "map ident (asyncHookCallbacks two_loggers) = [7, 8]"
    by (simp add: fixture_defs)
  have a: "ident (callbacks \<lparr>callbacks = logger 9\<rparr>) \<notin> ident ` set (asyncHookCallbacks two_loggers)"
    by (simp add: fixture_defs)
  have b: "length (filter (\<lambda>b. ident b = ident (callbacks \<lparr>callbacks = logger 7\<rparr>))
     (asyncHookCallbacks two_loggers)) \<le> 1"
    by (simp add: fixture_defs)
  have c: "map ident (asyncHookCallbacks (disable \<lparr>callbacks = logger 7\<rparr> two_loggers)) = [8]"
    by (simp add: fixture_defs disable_def splice1_def)
  from disable_idempotent [of "\<lparr>callbacks = logger 9\<rparr>" two_loggers]
       disable_idempotent [of "\<lparr>callbacks = logger 7\<rparr>" two_loggers] a b c
  show ?thesis by simp
qed

lemma enable_registry [simp]:
  "asyncHookCallbacks (enable h s) = asyncHookCallbacks s @ [callbacks h]"
  by (simp add: enable_def enablePromiseTracking_def Let_def)

lemma enable_observer [simp]: "observer (enable h s) = observer s"
  by (simp add: enable_def enablePromiseTracking_def Let_def)





lemma dispatch_quiet_fst:
  "quiet (methods m (asyncHookCallbacks s)) \<Longrightarrow> fst (dispatch m s) = Inr ()"
  by (simp add: dispatch_quiet)

lemma onInitContext_quiet:
  "quiet (methods (initOf c (current s)) (asyncHookCallbacks s)) \<Longrightarrow> fst (onInitContext c s) = Inr ()"
  by (simp add: onInitContext_def Let_def dispatch_quiet_fst)

lemma onBeforeContext_quiet:
  "quiet (methods (beforeOf c) (asyncHookCallbacks s)) \<Longrightarrow> fst (onBeforeContext c s) = Inr ()"
  by (simp add: onBeforeContext_def Let_def dispatch_quiet_fst)

lemma onAfterContext_quiet:
  "quiet (methods (afterOf c) (asyncHookCallbacks s)) \<Longrightarrow> fst (onAfterContext c s) = Inr ()"
  by (simp add: onAfterContext_def Let_def dispatch_quiet_fst split: prod.splits)







lemma enable_current [simp]: "current (enable h s) = current s"
  by (simp add: current_def enable_def enablePromiseTracking_def Let_def)

lemma disable_fields [simp]:
  "observer (disable h s) = observer s" "current (disable h s) = current s"
  by (simp_all add: disable_eq current_def)




subsection \<open>Reading and writing a local\<close>

lemma value_loop_found:
  "lookupLocal (h c) L = Some v \<Longrightarrow> value_loop h L (Some c) = Some v"
  by (subst value_loop.simps) simp

lemma value_loop_step:
  "lookupLocal (h c) L = None \<Longrightarrow> value_loop h L (Some c) = value_loop h L (parentContext (h c))"
  by (subst value_loop.simps) simp

lemma value_loop_end: "value_loop h L None = Some (initialValue L)"
  by (subst value_loop.simps) simp

lemma value_loop_path:
  "path h a cs b \<Longrightarrow> \<forall>c \<in> set cs. lookupLocal (h c) L = None \<Longrightarrow>
   value_loop h L a = value_loop h L b"
  by (induction cs arbitrary: a) (auto simp: value_loop_step)

text \<open>
  Claim C1. The getter returns the value bound to the local in the nearest context of the
  parent chain of the current context that has an entry for it, and the initial value
  when the chain ends without such a context. In particular a child without an entry of
  its own reads its parent's binding, and so does a grandchild.
\<close>

theorem get_value_nearest_binding:
  "(path (heap s) (current s) cs None \<and> (\<forall>c \<in> set cs. lookupLocal (heap s c) L = None) \<longrightarrow>
      get_value L s = Some (initialValue L)) \<and>
   (path (heap s) (current s) cs (Some a) \<and> (\<forall>c \<in> set cs. lookupLocal (heap s c) L = None) \<and>
    lookupLocal (heap s a) L = Some v \<longrightarrow>
      get_value L s = Some v) \<and>
   (current s = Some child \<and> lookupLocal (heap s child) L = None \<and>
    parentContext (heap s child) = Some a \<and> lookupLocal (heap s a) L = Some v \<longrightarrow>
      get_value L s = Some v) \<and>
   (current s = Some grandchild \<and> lookupLocal (heap s grandchild) L = None \<and>
    parentContext (heap s grandchild) = Some child \<and> lookupLocal (heap s child) L = None \<and>
    parentContext (heap s child) = Some a \<and> lookupLocal (heap s a) L = Some v \<longrightarrow>
      get_value L s = Some v)"
  (is "?none \<and> ?some \<and> ?child \<and> ?grandchild")
proof -
  have some: "get_value L s = Some v"
    if "path (heap s) (current s) cs (Some a)" "\<forall>c \<in> set cs. lookupLocal (heap s c) L = None"
       "lookupLocal (heap s a) L = Some v" for cs a v
    using value_loop_path [OF that(1,2)] that(3)
    by (simp add: get_value_def value_loop_found)
  have none: ?none
    using value_loop_path [of "heap s" "current s" cs None L]
    by (auto simp: get_value_def value_loop_end)
  have child: ?child
    using some [of "[child]" a v] by auto
  have grandchild: ?grandchild
    using some [of "[grandchild, child]" a v] by auto
  from none some [of cs a v] child grandchild show ?thesis by blast
qed

lemma family_facts:
  "current family = Some 3"
  "contextStack family = [0, 2, 3]"
  "parentContext (heap family 3) = Some 2"
  "parentContext (heap family 2) = Some 0"
  "parentContext (heap family 0) = None"
  "lookupLocal (heap family 3) local0 = None"
  "lookupLocal (heap family 2) local0 = None"
  "lookupLocal (heap family 0) local0 = Some (Num 3)"
  "initialValue local0 = Str ''foo''"
  "localId local0 = 1"
  by (simp_all add: family_defs)

theorem get_value_nearest_binding_witness:
  "path (heap (snd (AsyncLocal_new (Str ''foo'') (module_init ([] :: log)))))
     (current (snd (AsyncLocal_new (Str ''foo'') (module_init ([] :: log))))) [0] None \<and>
   get_value local0 (snd (AsyncLocal_new (Str ''foo'') (module_init ([] :: log)))) = Some (Str ''foo'') \<and>
   path (heap family) (current family) [3, 2] (Some 0) \<and>
   lookupLocal (heap family 3) local0 = None \<and> lookupLocal (heap family 2) local0 = None \<and>
   lookupLocal (heap family 0) local0 = Some (Num 3) \<and>
   get_value local0 family = Some (Num 3) \<and>
   current (snd (onAfterContext 3 family)) = Some 2 \<and>
   get_value local0 (snd (onAfterContext 3 family)) = Some (Num 3)"
proof -
  let ?s0 = "snd (AsyncLocal_new (Str ''foo'') (module_init ([] :: log))) :: (jsval, log) state"
  let ?s2 = "snd (onAfterContext 3 family)"
  have p0: "path (heap ?s0) (current ?s0) [0] None" "lookupLocal (heap ?s0 0) local0 = None"
    by (simp_all add: family_defs)
  have pf: "path (heap family) (current family) [3, 2] (Some 0)"
    by (simp add: family_facts)
  have h2: "heap ?s2 = heap family" "current ?s2 = Some 2"
    by (simp_all add: onAfterContext_def pop_def Let_def current_def family_facts)
  from get_value_nearest_binding [of ?s0 "[0]" local0 0 "Num 3" 0 0]
       get_value_nearest_binding [of family "[3, 2]" local0 0 "Num 3" 2 3]
       get_value_nearest_binding [of ?s2 "[2]" local0 0 "Num 3" 2 3]
       p0 pf h2 family_facts
  show ?thesis by simp
qed

lemma set_value_eq:
  "current s = Some c \<Longrightarrow>
   set_value L v s =
     (Inr (), s\<lparr>heap := (heap s)(c := (heap s c)\<lparr>asyncLocalData :=
        Some ((case asyncLocalData (heap s c) of None \<Rightarrow> Map.empty | Some m \<Rightarrow> m)(localId L \<mapsto> v))\<rparr>)\<rparr>)"
  by (simp add: set_value_def Let_def)

lemma set_value_lookup:
  "current s = Some c \<Longrightarrow> lookupLocal (heap (snd (set_value L v s)) c) L = Some v"
  by (simp add: set_value_eq lookupLocal_def)

lemma set_value_other:
  "current s = Some c \<Longrightarrow> c' \<noteq> c \<Longrightarrow> heap (snd (set_value L v s)) c' = heap s c'"
  by (simp add: set_value_eq)

lemma set_value_current:
  "current (snd (set_value L v s)) = current s"
  by (simp add: set_value_def current_def Let_def split: option.splits)

lemma get_value_found:
  "current s = Some c \<Longrightarrow> lookupLocal (heap s c) L = Some v \<Longrightarrow> get_value L s = Some v"
  by (simp add: get_value_def value_loop_found)

lemma get_value_after_set:
  assumes "contextStack s \<noteq> []"
  shows "get_value L (snd (set_value L v s)) = Some v"
proof -
  from assms have c: "current s = Some (last (contextStack s))" by (simp add: current_def)
  show ?thesis
    by (rule get_value_found [of _ "last (contextStack s)"])
       (simp_all add: set_value_current c set_value_lookup)
qed

text \<open>
  Claim C9. What counts is that the frame has an entry, not which value it holds: the
  getter returns the entry of the current frame whatever it is. After the setter the
  getter returns the value set, also when that value is \<open>undefined\<close> or the initial
  value, whatever the ancestors bind.
\<close>

theorem binding_presence_shadows:
  "(current s = Some c \<and> lookupLocal (heap s c) L = Some v \<longrightarrow> get_value L s = Some v) \<and>
   (contextStack s \<noteq> [] \<longrightarrow> get_value L (snd (set_value L v s)) = Some v) \<and>
   (contextStack t \<noteq> [] \<longrightarrow> get_value K (snd (set_value K Undefined t)) = Some Undefined)"
  using get_value_found [of s c L v] get_value_after_set [of s L v]
    get_value_after_set [of t K Undefined]
  by blast

theorem binding_presence_shadows_witness:
  "contextStack family \<noteq> [] \<and> current family = Some 3 \<and>
   lookupLocal (heap family 0) local0 = Some (Num 3) \<and> initialValue local0 = Str ''foo'' \<and>
   get_value local0 family = Some (Num 3) \<and>
   lookupLocal (heap (snd (set_value local0 Undefined family)) 3) local0 = Some Undefined \<and>
   get_value local0 (snd (set_value local0 Undefined family)) = Some Undefined \<and>
   get_value local0 (snd (set_value local0 (Str ''foo'') family)) = Some (Str ''foo'')"
proof -
  have g: "get_value local0 family = Some (Num 3)"
    by (simp add: get_value_def family_facts value_loop_step value_loop_found)
  have c: "current (snd (set_value local0 Undefined family)) = Some 3"
    by (simp add: set_value_current family_facts)
  have l: "lookupLocal (heap (snd (set_value local0 Undefined family)) 3) local0 = Some Undefined"
    by (simp add: set_value_lookup family_facts)
  from binding_presence_shadows [of "snd (set_value local0 Undefined family)" 3 local0 Undefined family local0]
       binding_presence_shadows [of family 3 local0 "Str ''foo''" family local0]
       g c l family_facts
  show ?thesis by simp
qed

text \<open>
  Claim C4. The setter writes into the store of the current context only: every other
  context is unchanged, and in the current one the parent link and the entries of other
  locals are unchanged; nothing else of the state changes. So when a context \<open>A\<close> sets
  \<open>a\<close> and later another context \<open>B\<close> sets \<open>b\<close>, reading in \<open>A\<close> gives \<open>a\<close>, reading
  in \<open>B\<close> gives \<open>b\<close>, and every other context, the ancestors among them, is as before.
\<close>

theorem set_value_frame:
  "(current s = Some c \<longrightarrow>
      fst (set_value L v s) = Inr () \<and>
      (\<forall>c'. c' \<noteq> c \<longrightarrow> heap (snd (set_value L v s)) c' = heap s c') \<and>
      parentContext (heap (snd (set_value L v s)) c) = parentContext (heap s c) \<and>
      lookupLocal (heap (snd (set_value L v s)) c) L = Some v \<and>
      (\<forall>K. localId K \<noteq> localId L \<longrightarrow>
           lookupLocal (heap (snd (set_value L v s)) c) K = lookupLocal (heap s c) K) \<and>
      snd (set_value L v s) = s\<lparr>heap := heap (snd (set_value L v s))\<rparr>) \<and>
   (current sA = Some A \<and> current sB = Some B \<and> A \<noteq> B \<and>
    heap sB = heap (snd (set_value L a sA)) \<longrightarrow>
      (\<forall>t. heap t = heap (snd (set_value L b sB)) \<and> current t = Some A \<longrightarrow> get_value L t = Some a) \<and>
      (\<forall>t. heap t = heap (snd (set_value L b sB)) \<and> current t = Some B \<longrightarrow> get_value L t = Some b) \<and>
      (\<forall>P. P \<noteq> A \<and> P \<noteq> B \<longrightarrow> heap (snd (set_value L b sB)) P = heap sA P))"
  (is "?frame \<and> ?siblings")
proof
  show ?frame
    by (auto simp: set_value_eq lookupLocal_def split: option.splits)
next
  show ?siblings
  proof (intro impI, elim conjE)
    assume cA: "current sA = Some A" and cB: "current sB = Some B" and ne: "A \<noteq> B"
      and hB: "heap sB = heap (snd (set_value L a sA))"
    let ?h = "heap (snd (set_value L b sB))"
    have atB: "lookupLocal (?h B) L = Some b"
      using cB by (rule set_value_lookup)
    have "?h A = heap sB A"
      using cB ne by (simp add: set_value_other)
    then have atA: "lookupLocal (?h A) L = Some a"
      using cA by (simp add: hB set_value_lookup)
    have rest: "?h P = heap sA P" if "P \<noteq> A" "P \<noteq> B" for P
      using that cA cB by (simp add: set_value_other hB)
    from atA atB rest
    show "(\<forall>t. heap t = ?h \<and> current t = Some A \<longrightarrow> get_value L t = Some a) \<and>
      (\<forall>t. heap t = ?h \<and> current t = Some B \<longrightarrow> get_value L t = Some b) \<and>
      (\<forall>P. P \<noteq> A \<and> P \<noteq> B \<longrightarrow> ?h P = heap sA P)"
      by (simp add: get_value_def value_loop_found)
  qed
qed

lemma onBeforeContext_fields [simp]:
  "heap (snd (onBeforeContext c s)) = heap s"
  "nextRef (snd (onBeforeContext c s)) = nextRef s"
  "contextStack (snd (onBeforeContext c s)) = contextStack s @ [c]"
  "asyncHookCallbacks (snd (onBeforeContext c s)) = asyncHookCallbacks s"
  "promiseTrackingEnabled (snd (onBeforeContext c s)) = promiseTrackingEnabled s"
  by (simp_all add: onBeforeContext_def Let_def)

lemma onAfterContext_fields [simp]:
  "heap (snd (onAfterContext c s)) = heap s"
  "nextRef (snd (onAfterContext c s)) = nextRef s"
  "asyncHookCallbacks (snd (onAfterContext c s)) = asyncHookCallbacks s"
  "promiseTrackingEnabled (snd (onAfterContext c s)) = promiseTrackingEnabled s"
  by (simp_all add: onAfterContext_def Let_def split: prod.splits)

lemma onInitContext_fields [simp]:
  "heap (snd (onInitContext c s)) = (heap s)(c := (heap s c)\<lparr>parentContext := current s\<rparr>)"
  "nextRef (snd (onInitContext c s)) = nextRef s"
  "contextStack (snd (onInitContext c s)) = contextStack s"
  "asyncHookCallbacks (snd (onInitContext c s)) = asyncHookCallbacks s"
  "promiseTrackingEnabled (snd (onInitContext c s)) = promiseTrackingEnabled s"
  by (simp_all add: onInitContext_def Let_def)

lemma set_value_fields [simp]:
  "nextRef (snd (set_value L v s)) = nextRef s"
  "contextStack (snd (set_value L v s)) = contextStack s"
  "asyncHookCallbacks (snd (set_value L v s)) = asyncHookCallbacks s"
  "promiseTrackingEnabled (snd (set_value L v s)) = promiseTrackingEnabled s"
  "observer (snd (set_value L v s)) = observer s"
  by (simp_all add: set_value_def Let_def split: option.splits)

lemma siblings_facts:
  "contextStack siblings = [0]"
  "parentContext (heap siblings 2) = Some 0"
  "parentContext (heap siblings 3) = Some 0"
  "lookupLocal (heap siblings 0) local0 = Some (Num 3)"
  "lookupLocal (heap siblings 2) local0 = None"
  "lookupLocal (heap siblings 3) local0 = None"
  by (simp_all add: siblings_defs)

theorem set_value_frame_witness:
  "current (snd (onBeforeContext 2 siblings)) = Some 2 \<and>
   current (snd (onBeforeContext 3 (snd (onAfterContext 2 A_set)))) = Some 3 \<and>
   get_value local0 A_again = Some (Num 10) \<and>
   get_value local0 B_set = Some (Num 20) \<and>
   lookupLocal (heap B_set 0) local0 = Some (Num 3)"
proof -
  let ?sA = "snd (onBeforeContext 2 siblings)"
  let ?sB = "snd (onBeforeContext 3 (snd (onAfterContext 2 A_set)))"
  have cA: "current ?sA = Some 2"
    by (simp add: current_def)
  have cB: "current ?sB = Some 3"
    by (simp add: current_def)
  have hB: "heap ?sB = heap (snd (set_value local0 (Num 10) ?sA))"
    by (simp add: A_set_def)
  have cB': "current B_set = Some 3"
    by (simp add: B_set_def set_value_current cB)
  have tA: "heap A_again = heap B_set" "current A_again = Some 2"
    by (simp_all add: A_again_def current_def)
  have root: "lookupLocal (heap ?sA 0) local0 = Some (Num 3)"
    by (simp add: siblings_facts)
  have hyp: "current ?sA = Some 2 \<and> current ?sB = Some 3 \<and> (2::nat) \<noteq> 3 \<and>
      heap ?sB = heap (snd (set_value local0 (Num 10) ?sA))"
    using cA cB hB by simp
  note sib = set_value_frame [where s = ?sA and c = 2 and L = local0 and v = "Num 10"
         and sA = ?sA and A = 2 and sB = ?sB and B = 3 and a = "Num 10" and b = "Num 20",
         THEN conjunct2, THEN mp, OF hyp, folded B_set_def]
  from sib tA have 1: "get_value local0 A_again = Some (Num 10)" by blast
  from sib cB' have 2: "get_value local0 B_set = Some (Num 20)" by blast
  from sib have "(0::nat) \<noteq> 2 \<and> (0::nat) \<noteq> 3 \<longrightarrow> heap B_set 0 = heap ?sA 0"
    by (elim conjE allE)
  then have "heap B_set 0 = heap ?sA 0" by simp
  with root have 3: "lookupLocal (heap B_set 0) local0 = Some (Num 3)" by simp
  from cA cB 1 2 3 show ?thesis by blast
qed

subsection \<open>Scopes\<close>

lemma AsyncContext_new_fields [simp]:
  "heap (snd (AsyncContext_new a s)) =
     (heap s)((case a of None \<Rightarrow> nextRef s | Some c \<Rightarrow> c) :=
        (heap s (case a of None \<Rightarrow> nextRef s | Some c \<Rightarrow> c))\<lparr>parentContext := current s\<rparr>)"
  "nextRef (snd (AsyncContext_new a s)) = Suc (nextRef s)"
  "contextStack (snd (AsyncContext_new a s)) = contextStack s"
  "asyncHookCallbacks (snd (AsyncContext_new a s)) = asyncHookCallbacks s"
  "promiseTrackingEnabled (snd (AsyncContext_new a s)) = promiseTrackingEnabled s"
proof -
  let ?obj = "case a of None \<Rightarrow> nextRef s | Some c \<Rightarrow> c"
  have eq: "snd (AsyncContext_new a s) = snd (onInitContext ?obj (s\<lparr>nextRef := Suc (nextRef s)\<rparr>))"
    by (simp add: AsyncContext_new_def Let_def split: prod.splits sum.splits)
  show "heap (snd (AsyncContext_new a s)) = (heap s)(?obj := (heap s ?obj)\<lparr>parentContext := current s\<rparr>)"
    "nextRef (snd (AsyncContext_new a s)) = Suc (nextRef s)"
    "contextStack (snd (AsyncContext_new a s)) = contextStack s"
    "asyncHookCallbacks (snd (AsyncContext_new a s)) = asyncHookCallbacks s"
    "promiseTrackingEnabled (snd (AsyncContext_new a s)) = promiseTrackingEnabled s"
    by (simp_all add: eq current_def)
qed

lemma AsyncContext_new_result:
  "fst (AsyncContext_new a s) = Inr c \<Longrightarrow> contextObject c = (case a of None \<Rightarrow> nextRef s | Some c \<Rightarrow> c)"
  by (auto simp: AsyncContext_new_def Let_def split: prod.splits sum.splits)

lemma runInScope_snd:
  "snd (runInScope c cb s) =
     (if fst (onBeforeContext (contextObject c) s) = Inr ()
      then snd (onAfterContext (contextObject c) (snd (cb (snd (onBeforeContext (contextObject c) s)))))
      else snd (onBeforeContext (contextObject c) s))"
  by (auto simp: runInScope_def split: prod.splits sum.splits)

lemma runInScope_fst:
  "fst (runInScope c cb s) =
     (case fst (onBeforeContext (contextObject c) s) of
        Inl e \<Rightarrow> Inl e
      | Inr _ \<Rightarrow>
          (case fst (onAfterContext (contextObject c) (snd (cb (snd (onBeforeContext (contextObject c) s))))) of
             Inl e \<Rightarrow> Inl e
           | Inr _ \<Rightarrow> fst (cb (snd (onBeforeContext (contextObject c) s)))))"
  by (auto simp: runInScope_def split: prod.splits sum.splits)

lemma calm_quiet: "\<forall>h \<in> set hs. calm h \<Longrightarrow> quiet (methods (beforeOf c) hs)"
proof (induction hs)
  case Nil
  then show ?case by simp
next
  case (Cons h hs)
  then have "quiet (methods (beforeOf c) [h])" "quiet (methods (beforeOf c) hs)"
    by (simp_all add: calm_def)
  then show ?case by (simp split: option.splits)
qed

lemma runInScope_balanced:
  assumes "\<forall>h \<in> set (asyncHookCallbacks s). calm h"
    and "contextStack (snd (cb (snd (onBeforeContext (contextObject c) s)))) =
         contextStack (snd (onBeforeContext (contextObject c) s))"
  shows "contextStack (snd (runInScope c cb s)) = contextStack s"
    and "asyncHookCallbacks (snd (runInScope c cb s)) =
         asyncHookCallbacks (snd (cb (snd (onBeforeContext (contextObject c) s))))"
proof -
  have "fst (onBeforeContext (contextObject c) s) = Inr ()"
    by (rule onBeforeContext_quiet) (rule calm_quiet [OF assms(1)])
  then have eq: "snd (runInScope c cb s) =
      snd (onAfterContext (contextObject c) (snd (cb (snd (onBeforeContext (contextObject c) s)))))"
    by (simp add: runInScope_snd)
  show "contextStack (snd (runInScope c cb s)) = contextStack s"
    by (simp add: eq onAfterContext_stack assms(2))
  show "asyncHookCallbacks (snd (runInScope c cb s)) =
         asyncHookCallbacks (snd (cb (snd (onBeforeContext (contextObject c) s))))"
    by (simp add: eq)
qed

lemma set_removeFirst: "set (removeFirst i hs) \<subseteq> set hs"
  by (induction hs) auto

lemma run_Seq_snd:
  "snd (run (Seq p q) s) =
     (case fst (run p s) of Inl e \<Rightarrow> snd (run p s) | Inr _ \<Rightarrow> snd (run q (snd (run p s))))"
  by (simp split: prod.splits sum.splits)

lemma run_NewContext_snd:
  "snd (run (NewContext k) s) =
     (case fst (AsyncContext_new None s) of
        Inl e \<Rightarrow> snd (AsyncContext_new None s)
      | Inr c \<Rightarrow> snd (run (k c) (snd (AsyncContext_new None s))))"
  by (simp split: prod.splits sum.splits)

lemma withValue_snd:
  "snd (withValue l v cb s) =
     (case fst (AsyncContext_new None s) of
        Inl e \<Rightarrow> snd (AsyncContext_new None s)
      | Inr c \<Rightarrow> snd (runInScope c (withValue_body l v cb) (snd (AsyncContext_new None s))))"
  by (simp add: withValue_def split: prod.splits sum.splits)

lemma withValue_body_snd:
  "snd (withValue_body l v cb s) =
     (case fst (set_value l v s) of
        Inl e \<Rightarrow> snd (set_value l v s)
      | Inr _ \<Rightarrow> snd (cb (snd (set_value l v s))))"
  by (simp add: withValue_body_def split: prod.splits sum.splits)

lemma run_balanced:
  "\<forall>h \<in> set (asyncHookCallbacks s) \<union> enabled p. calm h \<Longrightarrow>
   contextStack (snd (run p s)) = contextStack s \<and>
   set (asyncHookCallbacks (snd (run p s))) \<subseteq> set (asyncHookCallbacks s) \<union> enabled p"
proof (induction p arbitrary: s)
  case Return
  then show ?case by simp
next
  case (Raise e)
  then show ?case by simp
next
  case (Seq p q)
  from Seq.prems have "\<forall>h \<in> set (asyncHookCallbacks s) \<union> enabled p. calm h" by auto
  from Seq.IH(1) [OF this]
  have p: "contextStack (snd (run p s)) = contextStack s"
    "set (asyncHookCallbacks (snd (run p s))) \<subseteq> set (asyncHookCallbacks s) \<union> enabled p"
    by simp_all
  with Seq.prems have "\<forall>h \<in> set (asyncHookCallbacks (snd (run p s))) \<union> enabled q. calm h"
    by auto
  from Seq.IH(2) [OF this] p
  have q: "contextStack (snd (run q (snd (run p s)))) = contextStack s"
    "set (asyncHookCallbacks (snd (run q (snd (run p s))))) \<subseteq>
       set (asyncHookCallbacks s) \<union> enabled p \<union> enabled q"
    by auto
  from p q show ?case
    by (cases "fst (run p s)") (auto simp only: run_Seq_snd sum.case enabled.simps)
next
  case (NewContext k)
  let ?s1 = "snd (AsyncContext_new None s)"
  show ?case
  proof (cases "fst (AsyncContext_new None s)")
    case (Inl e)
    then show ?thesis by (simp add: run_NewContext_snd del: run.simps)
  next
    case (Inr c)
    from NewContext.prems have "\<forall>h \<in> set (asyncHookCallbacks ?s1) \<union> enabled (k c). calm h"
      by auto
    from NewContext.IH [OF _ this]
    have "contextStack (snd (run (k c) ?s1)) = contextStack s"
      "set (asyncHookCallbacks (snd (run (k c) ?s1))) \<subseteq> set (asyncHookCallbacks s) \<union> enabled (k c)"
      by simp_all
    with Inr show ?thesis
      by (auto simp only: run_NewContext_snd sum.case enabled.simps)
  qed
next
  case (RunInScope c p)
  let ?s1 = "snd (onBeforeContext (contextObject c) s)"
  from RunInScope.prems have "\<forall>h \<in> set (asyncHookCallbacks ?s1) \<union> enabled p. calm h"
    by auto
  from RunInScope.IH [OF this]
  have p: "contextStack (snd (run p ?s1)) = contextStack ?s1"
    "set (asyncHookCallbacks (snd (run p ?s1))) \<subseteq> set (asyncHookCallbacks s) \<union> enabled p"
    by simp_all
  from RunInScope.prems have "\<forall>h \<in> set (asyncHookCallbacks s). calm h" by auto
  from runInScope_balanced [of s "run p" c, OF this p(1)] p(2) show ?case by simp
next
  case (SetValue l v)
  then show ?case by simp
next
  case (WithValue l v p)
  let ?s1 = "snd (AsyncContext_new None s)"
  show ?case
  proof (cases "fst (AsyncContext_new None s)")
    case (Inl e)
    then show ?thesis by (simp add: withValue_snd)
  next
    case (Inr c)
    let ?s2 = "snd (onBeforeContext (contextObject c) ?s1)"
    let ?s3 = "snd (set_value l v ?s2)"
    from WithValue.prems have "\<forall>h \<in> set (asyncHookCallbacks ?s3) \<union> enabled p. calm h"
      by auto
    from WithValue.IH [OF this]
    have p: "contextStack (snd (run p ?s3)) = contextStack ?s2"
      "set (asyncHookCallbacks (snd (run p ?s3))) \<subseteq> set (asyncHookCallbacks s) \<union> enabled p"
      by simp_all
    have cb: "contextStack (snd (withValue_body l v (run p) ?s2)) = contextStack ?s2 \<and>
      set (asyncHookCallbacks (snd (withValue_body l v (run p) ?s2))) \<subseteq>
        set (asyncHookCallbacks s) \<union> enabled p"
      using p by (cases "fst (set_value l v ?s2)") (simp_all add: withValue_body_snd)
    from WithValue.prems have "\<forall>h \<in> set (asyncHookCallbacks ?s1). calm h" by auto
    from runInScope_balanced [of ?s1 "withValue_body l v (run p)" c, OF this] cb Inr
    show ?thesis by (simp add: withValue_snd)
  qed
next
  case (Enable h)
  then show ?case by (auto simp: enable_def enablePromiseTracking_def Let_def)
next
  case (Disable h)
  then show ?case using set_removeFirst by (auto simp: disable_eq)
qed

text \<open>
  Claim C2. Whatever a script of nested \<open>withValue\<close> and \<open>runInScope\<close> calls does,
  callbacks that raise included, the context stack after it is the stack before it, so
  the depth is the same: every push of \<open>onBeforeContext\<close> is matched by the pop of
  \<open>onAfterContext\<close>. The registered bundles are taken to be calm; a \<open>before\<close> method
  that raises is the subject of claim C5.
\<close>

theorem nested_scopes_balanced:
  assumes "\<forall>h \<in> set (asyncHookCallbacks s) \<union> enabled p. calm h"
  shows "contextStack (snd (run p s)) = contextStack s \<and>
         length (contextStack (snd (run p s))) = length (contextStack s)"
  using run_balanced [OF assms] by simp

lemma logger_calm: "calm (logger i)"
  by (simp add: calm_def logger_def beforeOf_def)

theorem nested_scopes_balanced_witness:
  "asyncHookCallbacks observed = [logger 7] \<and> enabled nested = {} \<and> calm (logger 7) \<and>
   fst (run nested observed) = Inl (Thrown ''callback'') \<and>
   contextStack observed = [0, 2, 3] \<and>
   contextStack (snd (run nested observed)) = [0, 2, 3]"
proof -
  have regs: "asyncHookCallbacks observed = [logger 7]"
    "contextStack observed = [0, 2, 3]"
    by (simp_all add: observed_def family_defs enable_def)
  have en: "enabled nested = {}"
    by (simp add: nested_def)
  have hyp: "\<forall>h \<in> set (asyncHookCallbacks observed) \<union> enabled nested. calm h"
    by (simp add: regs en logger_calm)
  have r: "fst (run nested observed) = Inl (Thrown ''callback'')"
    by (simp add: nested_def observed_def family_defs fixture_defs runInScope_def withValue_def
        withValue_body_def onAfterContext_def pop_def)
  from nested_scopes_balanced [OF hyp] r regs en logger_calm show ?thesis by simp
qed

text \<open>
  Claim C5. With a bundle registered whose \<open>before\<close> method raises, \<open>runInScope\<close> on a
  new context raises that failure before it enters its \<open>try\<close>, and the context it
  pushed stays on the stack: the depth is 2 after the call and was 1 before it.
\<close>

theorem before_hook_raise_leaves_frame:
  "contextStack with_thrower = [0] \<and>
   fst (run (NewContext (\<lambda>c. RunInScope c Return)) with_thrower) = Inl (Thrown ''before'') \<and>
   contextStack (snd (run (NewContext (\<lambda>c. RunInScope c Return)) with_thrower)) = [0, 1]"
  by (simp add: with_thrower_def fixture_defs runInScope_def onBeforeContext_def)

lemma AsyncContext_new_quiet:
  assumes "quiet (methods (initOf (nextRef s) (current s)) (asyncHookCallbacks s))"
  shows "fst (AsyncContext_new None s) = Inr \<lparr>contextObject = nextRef s\<rparr>"
proof -
  let ?s1 = "s\<lparr>nextRef := Suc (nextRef s)\<rparr>"
  have "current ?s1 = current s" by (simp add: current_def)
  with assms have "fst (onInitContext (nextRef s) ?s1) = Inr ()"
    by (simp add: onInitContext_quiet)
  then show ?thesis
    by (cases "onInitContext (nextRef s) ?s1") (simp add: AsyncContext_new_def Let_def)
qed

lemma withValue_fst:
  "fst (withValue l v cb s) =
     (case fst (AsyncContext_new None s) of
        Inl e \<Rightarrow> Inl e
      | Inr c \<Rightarrow> fst (runInScope c (withValue_body l v cb) (snd (AsyncContext_new None s))))"
  by (simp add: withValue_def split: prod.splits sum.splits)

lemma withValue_body_fst:
  "fst (withValue_body l v cb s) =
     (case fst (set_value l v s) of
        Inl e \<Rightarrow> Inl e
      | Inr _ \<Rightarrow> fst (cb (snd (set_value l v s))))"
  by (simp add: withValue_body_def split: prod.splits sum.splits)

text \<open>
  Claim C3. \<open>withValue\<close> creates one new object, a context whose parent is the context
  current at the call, pushes it, binds the local to the value in it, and applies the
  callback in that state. Its outcome is the outcome of the callback, a result or a
  failure, unchanged, and the frame is popped in both cases. The hooks are taken not to
  raise during the call, and the callback to leave the stack as it found it.
\<close>

theorem withValue_scoped:
  assumes init: "quiet (methods (initOf (nextRef s) (current s)) (asyncHookCallbacks s))"
    and before: "quiet (methods (beforeOf (nextRef s)) (asyncHookCallbacks s))"
    and balanced: "contextStack (snd (f (withValue_entry L v s))) = contextStack (withValue_entry L v s)"
    and after: "quiet (methods (afterOf (nextRef s)) (asyncHookCallbacks (snd (f (withValue_entry L v s)))))"
  shows "fst (withValue L v f s) = fst (f (withValue_entry L v s)) \<and>
         snd (withValue L v f s) = snd (onAfterContext (nextRef s) (snd (f (withValue_entry L v s)))) \<and>
         contextStack (snd (withValue L v f s)) = contextStack s \<and>
         contextStack (withValue_entry L v s) = contextStack s @ [nextRef s] \<and>
         nextRef (withValue_entry L v s) = Suc (nextRef s) \<and>
         (\<forall>c. c \<noteq> nextRef s \<longrightarrow> heap (withValue_entry L v s) c = heap s c) \<and>
         parentContext (heap (withValue_entry L v s) (nextRef s)) = current s \<and>
         lookupLocal (heap (withValue_entry L v s) (nextRef s)) L = Some v \<and>
         get_value L (withValue_entry L v s) = Some v"
proof -
  let ?n = "nextRef s"
  let ?c = "\<lparr>contextObject = ?n\<rparr>"
  let ?s1 = "snd (AsyncContext_new None s)"
  let ?s2 = "snd (onBeforeContext ?n ?s1)"
  let ?e = "withValue_entry L v s"
  have e: "?e = snd (set_value L v ?s2)" by (simp add: withValue_entry_def)
  have new: "fst (AsyncContext_new None s) = Inr ?c"
    using init by (rule AsyncContext_new_quiet)
  have bef: "fst (onBeforeContext ?n ?s1) = Inr ()"
    using before by (simp add: onBeforeContext_quiet)
  have cur2: "current ?s2 = Some ?n" by (simp add: current_def)
  then have set: "fst (set_value L v ?s2) = Inr ()" by (simp add: set_value_eq)
  have body_fst: "fst (withValue_body L v f ?s2) = fst (f ?e)"
    by (simp add: withValue_body_fst set e)
  have body_snd: "snd (withValue_body L v f ?s2) = snd (f ?e)"
    by (simp add: withValue_body_snd set e)
  have aft: "fst (onAfterContext ?n (snd (f ?e))) = Inr ()"
    using after by (simp add: onAfterContext_quiet)
  have stack_e: "contextStack ?e = contextStack s @ [?n]" by (simp add: e)
  have r1: "fst (withValue L v f s) = fst (f ?e)"
    by (simp add: withValue_fst new runInScope_fst bef body_fst body_snd aft)
  have r2: "snd (withValue L v f s) = snd (onAfterContext ?n (snd (f ?e)))"
    by (simp add: withValue_snd new runInScope_snd bef body_snd)
  have r3: "contextStack (snd (withValue L v f s)) = contextStack s"
    by (simp add: r2 onAfterContext_stack balanced stack_e)
  have r5: "nextRef ?e = Suc ?n" by (simp add: e)
  have heap_e: "heap ?e = (heap ?s2)(?n := (heap ?s2 ?n)\<lparr>asyncLocalData :=
        Some ((case asyncLocalData (heap ?s2 ?n) of None \<Rightarrow> Map.empty | Some m \<Rightarrow> m)(localId L \<mapsto> v))\<rparr>)"
    by (simp add: e set_value_eq [OF cur2])
  have r6: "\<forall>c. c \<noteq> ?n \<longrightarrow> heap ?e c = heap s c"
    by (simp add: heap_e)
  have r7: "parentContext (heap ?e ?n) = current s"
    by (simp add: heap_e)
  have r8: "lookupLocal (heap ?e ?n) L = Some v"
    unfolding e using cur2 by (rule set_value_lookup)
  have "current ?e = Some ?n"
    by (simp add: e set_value_current cur2)
  then have r9: "get_value L ?e = Some v"
    using r8 by (rule get_value_found)
  from r1 r2 r3 stack_e r5 r6 r7 r8 r9 show ?thesis by blast
qed

lemma withValue_entry_fields [simp]:
  "asyncHookCallbacks (withValue_entry L v s) = asyncHookCallbacks s"
  "contextStack (withValue_entry L v s) = contextStack s @ [nextRef s]"
  by (simp_all add: withValue_entry_def)

theorem withValue_scoped_witness:
  "quiet (methods (initOf (nextRef observed) (current observed)) (asyncHookCallbacks observed)) \<and>
   quiet (methods (beforeOf (nextRef observed)) (asyncHookCallbacks observed)) \<and>
   quiet (methods (afterOf (nextRef observed)) (asyncHookCallbacks observed)) \<and>
   get_value local0 observed = Some (Num 3) \<and>
   contextStack observed = [0, 2, 3] \<and>
   fst (withValue local0 (Num 10) (\<lambda>s. (Inl (Thrown ''callback''), s)) observed)
     = (Inl (Thrown ''callback'') :: failure + jsval) \<and>
   contextStack (snd (withValue local0 (Num 10)
     (\<lambda>s. (Inl (Thrown ''callback'') :: failure + jsval, s)) observed)) = [0, 2, 3] \<and>
   fst (withValue local0 (Num 10) (\<lambda>s. (Inr (get_value local0 s), s)) observed)
     = Inr (Some (Num 10)) \<and>
   contextStack (snd (withValue local0 (Num 10) (\<lambda>s. (Inr (get_value local0 s), s)) observed))
     = [0, 2, 3]"
proof -
  let ?f = "\<lambda>s :: (jsval, log) state. (Inl (Thrown ''callback'') :: failure + jsval, s)"
  let ?g = "\<lambda>s :: (jsval, log) state. (Inr (get_value local0 s) :: failure + jsval option, s)"
  have reg: "asyncHookCallbacks observed = [logger 7]"
    by (simp add: observed_def family_defs enable_def)
  have st: "contextStack observed = [0, 2, 3]"
    by (simp add: observed_def enable_def enablePromiseTracking_def Let_def family_facts)
  have hp: "heap observed = heap family" "current observed = current family"
    by (simp_all add: observed_def enable_def enablePromiseTracking_def Let_def current_def)
  have g3: "get_value local0 observed = Some (Num 3)"
    by (simp add: get_value_def hp family_facts value_loop_step value_loop_found)
  have q: "quiet (methods (initOf c p) [logger 7])" "quiet (methods (beforeOf c) [logger 7])"
    "quiet (methods (afterOf c) [logger 7])" for c p
    by (simp_all add: logger_def initOf_def beforeOf_def afterOf_def)
  have h1: "quiet (methods (initOf (nextRef observed) (current observed)) (asyncHookCallbacks observed))"
    and h2: "quiet (methods (beforeOf (nextRef observed)) (asyncHookCallbacks observed))"
    and h3: "quiet (methods (afterOf (nextRef observed)) (asyncHookCallbacks observed))"
    by (simp_all only: reg q)
  let ?e = "withValue_entry local0 (Num 10) observed"
  have balF: "contextStack (snd (?f ?e)) = contextStack ?e"
    and balG: "contextStack (snd (?g ?e)) = contextStack ?e"
    by simp_all
  have aftF: "quiet (methods (afterOf (nextRef observed)) (asyncHookCallbacks (snd (?f ?e))))"
    and aftG: "quiet (methods (afterOf (nextRef observed)) (asyncHookCallbacks (snd (?g ?e))))"
    using h3 by simp_all
  note TF = withValue_scoped [where s = observed and L = local0 and v = "Num 10" and f = ?f,
      OF h1 h2 balF aftF]
  note TG = withValue_scoped [where s = observed and L = local0 and v = "Num 10" and f = ?g,
      OF h1 h2 balG aftG]
  from TF have F1: "fst (withValue local0 (Num 10) ?f observed) = fst (?f ?e)"
    and F2: "contextStack (snd (withValue local0 (Num 10) ?f observed)) = contextStack observed"
    by blast+
  from TG have G1: "fst (withValue local0 (Num 10) ?g observed) = fst (?g ?e)"
    and G2: "contextStack (snd (withValue local0 (Num 10) ?g observed)) = contextStack observed"
    and G3: "get_value local0 ?e = Some (Num 10)"
    by blast+
  from h1 h2 h3 g3 st F1 F2 G1 G2 G3 show ?thesis by simp
qed

subsection \<open>Parent links\<close>

lemma wellFormed_cong:
  assumes "\<And>c. parentContext (heap s' c) = parentContext (heap s c)"
    and "contextStack s' = contextStack s" and "nextRef s' = nextRef s"
  shows "wellFormed s' = wellFormed s"
proof -
  have "isContext s' = isContext s" by (simp add: isContext_def fun_eq_iff assms)
  then show ?thesis by (simp add: wellFormed_def assms)
qed

lemma extends_refl: "wellFormed s \<Longrightarrow> extends s s"
  by (simp add: extends_def)

lemma extends_trans:
  assumes "extends s s1" and "extends s1 s2"
  shows "extends s s2"
proof -
  from assms obtain e1 e2 where "contextStack s1 = contextStack s @ e1"
    "contextStack s2 = contextStack s1 @ e2"
    by (auto simp: extends_def)
  then have "contextStack s2 = contextStack s @ (e1 @ e2)" by simp
  then have "\<exists>ext. contextStack s2 = contextStack s @ ext" ..
  with assms show ?thesis by (simp add: extends_def)
qed

lemma extends_same:
  assumes "wellFormed s"
    and "\<And>c. parentContext (heap s' c) = parentContext (heap s c)"
    and "contextStack s' = contextStack s" and "nextRef s' = nextRef s"
  shows "extends s s'"
  using assms wellFormed_cong [of s' s] by (simp add: extends_def)

lemma isContext_bound: "wellFormed s \<Longrightarrow> isContext s c \<Longrightarrow> c < nextRef s"
  by (auto simp: wellFormed_def isContext_def)

lemma extends_isContext:
  assumes "wellFormed s" and "extends s s'" and "isContext s c"
  shows "isContext s' c"
proof -
  from assms(1,3) have "c < nextRef s" by (rule isContext_bound)
  with assms(2) have "parentContext (heap s' c) = parentContext (heap s c)"
    by (simp add: extends_def)
  with assms(3) show ?thesis by (simp add: isContext_def)
qed

lemma current_isContext:
  assumes "wellFormed s"
  shows "\<exists>t. current s = Some t \<and> isContext s t"
proof -
  from assms have ne: "contextStack s \<noteq> []" and all: "list_all (isContext s) (contextStack s)"
    by (simp_all add: wellFormed_def)
  from ne have "last (contextStack s) \<in> set (contextStack s)" by simp
  with all have "isContext s (last (contextStack s))" by (simp add: list_all_iff)
  with ne show ?thesis by (simp add: current_def)
qed

lemma new_extends:
  assumes "wellFormed s"
  shows "extends s (snd (AsyncContext_new None s))"
    and "isContext (snd (AsyncContext_new None s)) (nextRef s)"
proof -
  let ?n = "nextRef s"
  let ?s1 = "snd (AsyncContext_new None s)"
  from current_isContext [OF assms] obtain t where t: "current s = Some t" "isContext s t" by blast
  from assms t(2) have tn: "t < ?n" by (rule isContext_bound)
  have pn: "parentContext (heap ?s1 ?n) = Some t"
    by (simp add: t)
  have po: "parentContext (heap ?s1 c) = parentContext (heap s c)" if "c \<noteq> ?n" for c
    using that by simp
  from assms have n0: "topLevelContext < ?n" by (simp add: wellFormed_def)
  have ctx: "isContext ?s1 c" if "isContext s c" for c
  proof (cases "c = ?n")
    case True
    with pn show ?thesis by (simp add: isContext_def del: AsyncContext_new_fields)
  next
    case False
    with that po show ?thesis by (simp add: isContext_def del: AsyncContext_new_fields)
  qed
  show new: "isContext ?s1 ?n"
    using pn by (simp add: isContext_def del: AsyncContext_new_fields)
  have "wellFormed ?s1"
    unfolding wellFormed_def
  proof (intro conjI allI impI)
    show "contextStack ?s1 \<noteq> []" using assms by (simp add: wellFormed_def)
    show "topLevelContext < nextRef ?s1" using n0 by simp
    show "parentContext (heap ?s1 topLevelContext) = None"
      using assms n0 po [of topLevelContext] by (simp add: wellFormed_def del: AsyncContext_new_fields)
    show "list_all (isContext ?s1) (contextStack ?s1)"
      using assms ctx by (simp add: wellFormed_def list_all_iff)
  next
    fix c p assume cp: "parentContext (heap ?s1 c) = Some p"
    have "p < c \<and> c < nextRef ?s1 \<and> isContext ?s1 p"
    proof (cases "c = ?n")
      case True
      with cp pn have "p = t" by (simp del: AsyncContext_new_fields)
      with True tn t(2) ctx show ?thesis by simp
    next
      case False
      with cp po have "parentContext (heap s c) = Some p" by (simp del: AsyncContext_new_fields)
      with assms have "p < c" "c < ?n" "isContext s p" by (auto simp: wellFormed_def)
      with ctx show ?thesis by simp
    qed
    then show "p < c" "c < nextRef ?s1" "isContext ?s1 p" by simp_all
  qed
  moreover have "\<forall>c. c < ?n \<longrightarrow> parentContext (heap ?s1 c) = parentContext (heap s c)"
    using po by (simp del: AsyncContext_new_fields)
  ultimately show "extends s ?s1" by (simp add: extends_def)
qed

lemma before_extends:
  assumes "wellFormed s" and "isContext s c"
  shows "extends s (snd (onBeforeContext c s))"
proof -
  let ?s1 = "snd (onBeforeContext c s)"
  have "isContext ?s1 = isContext s" by (simp add: isContext_def fun_eq_iff)
  with assms have "wellFormed ?s1" by (simp add: wellFormed_def)
  then show ?thesis by (simp add: extends_def)
qed

lemma after_extends:
  assumes "wellFormed s" and "extends s s2" and "contextStack s2 = contextStack s @ ext"
    and "ext \<noteq> []"
  shows "extends s (snd (onAfterContext c s2))"
proof -
  let ?s3 = "snd (onAfterContext c s2)"
  from assms(1) have ne: "contextStack s \<noteq> []" by (simp add: wellFormed_def)
  have ctx: "isContext ?s3 = isContext s2" by (simp add: isContext_def fun_eq_iff)
  have "contextStack ?s3 = contextStack s @ ext \<or> contextStack ?s3 = contextStack s @ butlast ext"
    using assms(3,4) by (simp add: onAfterContext_stack butlast_append)
  then obtain e where e: "contextStack ?s3 = contextStack s @ e" "set e \<subseteq> set ext"
    using in_set_butlastD by fastforce
  from assms(2) have wf2: "wellFormed s2" by (simp add: extends_def)
  then have "list_all (isContext s2) (contextStack s @ ext)"
    using assms(3) by (simp add: wellFormed_def)
  with e have "list_all (isContext s2) (contextStack ?s3)"
    by (auto simp: list_all_iff)
  with wf2 ne e(1) have "wellFormed ?s3"
    by (simp add: wellFormed_def ctx)
  with assms(2) e(1) show ?thesis by (simp add: extends_def)
qed

lemma runInScope_extends:
  assumes "wellFormed s" and "isContext s (contextObject c)"
    and "wellFormed (snd (onBeforeContext (contextObject c) s)) \<Longrightarrow>
         extends (snd (onBeforeContext (contextObject c) s))
           (snd (cb (snd (onBeforeContext (contextObject c) s))))"
  shows "extends s (snd (runInScope c cb s))"
proof -
  let ?s1 = "snd (onBeforeContext (contextObject c) s)"
  let ?s2 = "snd (cb ?s1)"
  have e1: "extends s ?s1" using assms(1,2) by (rule before_extends)
  then have "wellFormed ?s1" by (simp add: extends_def)
  then have e12: "extends ?s1 ?s2" by (rule assms(3))
  with e1 have e2: "extends s ?s2" by (rule extends_trans)
  from e12 obtain e where "contextStack ?s2 = contextStack ?s1 @ e" by (auto simp: extends_def)
  then have "contextStack ?s2 = contextStack s @ (contextObject c # e)" by simp
  with assms(1) e2 have "extends s (snd (onAfterContext (contextObject c) ?s2))"
    by (rule after_extends) simp
  with e1 show ?thesis by (simp add: runInScope_snd)
qed

lemma set_extends: "wellFormed s \<Longrightarrow> extends s (snd (set_value l v s))"
  by (rule extends_same) (simp_all add: set_value_def Let_def split: option.splits)

lemma run_extends:
  "wellFormed s \<Longrightarrow> scoped C p \<Longrightarrow> \<forall>c \<in> C. isContext s c \<Longrightarrow> extends s (snd (run p s))"
proof (induction p arbitrary: s C)
  case Return
  then show ?case by (simp add: extends_refl)
next
  case (Raise e)
  then show ?case by (simp add: extends_refl)
next
  case (Seq p q)
  from Seq.prems have e1: "extends s (snd (run p s))"
    by (intro Seq.IH(1) [of s C]) simp_all
  then have wf1: "wellFormed (snd (run p s))" by (simp add: extends_def)
  have "\<forall>c \<in> C. isContext (snd (run p s)) c"
    using Seq.prems(1,3) e1 by (blast intro: extends_isContext)
  with wf1 Seq.prems(2) have "extends (snd (run p s)) (snd (run q (snd (run p s))))"
    by (intro Seq.IH(2) [of _ C]) simp_all
  with e1 have "extends s (snd (run q (snd (run p s))))" by (rule extends_trans)
  with e1 show ?case
    by (cases "fst (run p s)") (simp_all only: run_Seq_snd sum.case)
next
  case (NewContext k)
  let ?s1 = "snd (AsyncContext_new None s)"
  from NewContext.prems(1) have e1: "extends s ?s1" and new: "isContext ?s1 (nextRef s)"
    by (rule new_extends)+
  show ?case
  proof (cases "fst (AsyncContext_new None s)")
    case (Inl e)
    with e1 show ?thesis by (simp add: run_NewContext_snd del: run.simps)
  next
    case (Inr c)
    then have c: "contextObject c = nextRef s"
      using AsyncContext_new_result [of None s c] by simp
    from e1 have wf1: "wellFormed ?s1" by (simp add: extends_def)
    from NewContext.prems(2) have sc: "scoped (insert (contextObject c) C) (k c)" by simp
    have "\<forall>x \<in> insert (contextObject c) C. isContext ?s1 x"
      using NewContext.prems(1,3) e1 new c by (auto intro: extends_isContext)
    with wf1 sc have "extends ?s1 (snd (run (k c) ?s1))"
      by (rule NewContext.IH [OF rangeI])
    with e1 have "extends s (snd (run (k c) ?s1))" by (rule extends_trans)
    with Inr show ?thesis by (simp add: run_NewContext_snd del: run.simps)
  qed
next
  case (RunInScope c p)
  let ?s1 = "snd (onBeforeContext (contextObject c) s)"
  from RunInScope.prems have ctx: "isContext s (contextObject c)" by simp
  have "extends ?s1 (snd (run p ?s1))" if wf1: "wellFormed ?s1"
  proof -
    have "extends s ?s1" using RunInScope.prems(1) ctx by (rule before_extends)
    then have "\<forall>x \<in> C. isContext ?s1 x"
      using RunInScope.prems(1,3) by (blast intro: extends_isContext)
    with wf1 RunInScope.prems(2) show ?thesis
      by (intro RunInScope.IH [of _ C]) simp_all
  qed
  with RunInScope.prems(1) ctx have "extends s (snd (runInScope c (run p) s))"
    by (rule runInScope_extends)
  then show ?case by simp
next
  case (SetValue l v)
  then show ?case by (simp add: set_extends)
next
  case (WithValue l v p)
  let ?s1 = "snd (AsyncContext_new None s)"
  from WithValue.prems(1) have e1: "extends s ?s1" and new: "isContext ?s1 (nextRef s)"
    by (rule new_extends)+
  show ?case
  proof (cases "fst (AsyncContext_new None s)")
    case (Inl e)
    with e1 show ?thesis by (simp add: withValue_snd)
  next
    case (Inr c)
    then have c: "contextObject c = nextRef s"
      using AsyncContext_new_result [of None s c] by simp
    from e1 have wf1: "wellFormed ?s1" by (simp add: extends_def)
    have C1: "\<forall>x \<in> C. isContext ?s1 x"
      using WithValue.prems(1,3) e1 by (blast intro: extends_isContext)
    let ?s2 = "snd (onBeforeContext (contextObject c) ?s1)"
    let ?s3 = "snd (set_value l v ?s2)"
    have body: "extends ?s2 (snd (withValue_body l v (run p) ?s2))" if wf2: "wellFormed ?s2"
    proof -
      have e2: "extends ?s1 ?s2" using wf1 new c by (simp add: before_extends)
      have e3: "extends ?s2 ?s3" using wf2 by (rule set_extends)
      then have wf3: "wellFormed ?s3" by (simp add: extends_def)
      have "\<forall>x \<in> C. isContext ?s2 x"
        using wf1 e2 C1 by (blast intro: extends_isContext)
      then have "\<forall>x \<in> C. isContext ?s3 x"
        using wf2 e3 by (blast intro: extends_isContext)
      with wf3 WithValue.prems(2) have "extends ?s3 (snd (run p ?s3))"
        by (intro WithValue.IH [of _ C]) simp_all
      with e3 have "extends ?s2 (snd (run p ?s3))" by (rule extends_trans)
      with e3 show ?thesis
        by (cases "fst (set_value l v ?s2)") (simp_all add: withValue_body_snd)
    qed
    from new c have "isContext ?s1 (contextObject c)" by simp
    with wf1 have "extends ?s1 (snd (runInScope c (withValue_body l v (run p)) ?s1))"
      using body by (rule runInScope_extends)
    with e1 have "extends s (snd (runInScope c (withValue_body l v (run p)) ?s1))"
      by (rule extends_trans)
    with Inr show ?thesis by (simp add: withValue_snd)
  qed
next
  case (Enable h)
  then show ?case
    by (intro extends_same) (simp_all add: enable_def enablePromiseTracking_def Let_def)
next
  case (Disable h)
  then show ?case
    by (intro extends_same) (simp_all add: disable_eq)
qed

lemma chain_to_root:
  "wellFormed s \<Longrightarrow> isContext s c \<Longrightarrow>
   \<exists>cs. path (heap s) (Some c) (cs @ [topLevelContext]) None"
proof (induction c rule: less_induct)
  case (less c)
  show ?case
  proof (cases "c = topLevelContext")
    case True
    with less.prems(1) have "path (heap s) (Some c) ([] @ [topLevelContext]) None"
      by (simp add: wellFormed_def)
    then show ?thesis ..
  next
    case False
    with less.prems(2) obtain p where p: "parentContext (heap s c) = Some p"
      by (auto simp: isContext_def)
    with less.prems(1) have "p < c" "isContext s p" by (auto simp: wellFormed_def)
    with less.IH less.prems(1) obtain cs where "path (heap s) (Some p) (cs @ [topLevelContext]) None"
      by blast
    with p have "path (heap s) (Some c) ((c # cs) @ [topLevelContext]) None" by simp
    then show ?thesis ..
  qed
qed

lemma path_decreases:
  assumes "\<And>c q. parentContext (h c) = Some q \<Longrightarrow> q < c"
  shows "path h (Some c) cs (Some d) \<Longrightarrow> cs \<noteq> [] \<Longrightarrow> d < c"
proof (induction cs arbitrary: c)
  case Nil
  then show ?case by simp
next
  case (Cons x xs)
  from Cons.prems have x: "x = c" and rest: "path h (parentContext (h c)) xs (Some d)" by simp_all
  show ?case
  proof (cases xs)
    case Nil
    with rest have "parentContext (h c) = Some d" by simp
    then show ?thesis by (rule assms)
  next
    case (Cons y ys)
    with rest have p: "parentContext (h c) = Some y" by simp
    with rest Cons have "d < y" by (intro Cons.IH) simp_all
    moreover from p have "y < c" by (rule assms)
    ultimately show ?thesis by simp
  qed
qed

lemma value_loop_cycle:
  assumes "parentContext (h c) = Some c" and "lookupLocal (h c) L = None"
  shows "value_loop h L (Some c) = None"
proof (rule ccontr)
  assume "value_loop h L (Some c) \<noteq> None"
  then obtain v where v: "value_loop h L (Some c) = Some v" by auto
  have "\<not> (h = h \<and> L = L \<and> Some c = Some c)"
  proof (rule value_loop.raw_induct
      [where P = "\<lambda>h' L' ctx v. \<not> (h' = h \<and> L' = L \<and> ctx = Some c)", OF _ v])
    fix loop :: "(ref \<Rightarrow> 'a Context) \<Rightarrow> 'a AsyncLocal \<Rightarrow> ref option \<Rightarrow> 'a option"
    fix h' L' ctx y
    assume IH: "\<And>a b d z. loop a b d = Some z \<Longrightarrow> \<not> (a = h \<and> b = L \<and> d = Some c)"
      and body: "(case ctx of None \<Rightarrow> Some (initialValue L')
          | Some c' \<Rightarrow> (case lookupLocal (h' c') L' of
               None \<Rightarrow> loop h' L' (parentContext (h' c')) | Some v \<Rightarrow> Some v)) = Some y"
    show "\<not> (h' = h \<and> L' = L \<and> ctx = Some c)"
    proof
      assume "h' = h \<and> L' = L \<and> ctx = Some c"
      with body assms have "loop h L (Some c) = Some y" by simp
      from IH [OF this] show False by simp
    qed
  qed
  then show False by simp
qed

text \<open>
  Claim C7, amended. The parent of a context is written by \<open>onInitContext\<close>, which the
  constructor of \<open>AsyncContext\<close> calls on its context object: the link becomes the
  context current at that moment, and no other object is touched. Client code that
  constructs contexts on new objects, runs code in scopes, sets locals, calls
  \<open>withValue\<close> and registers or unregisters hooks never changes the parent of an object
  that existed before it, and keeps the state well formed: no parent chain has a cycle,
  and the chain of every context ends at \<open>topLevelContext\<close>, whose parent is absent.
\<close>

theorem parent_links_stable:
  assumes "wellFormed s" and "scoped C p" and "\<forall>c \<in> C. isContext s c"
  shows "(\<forall>c. c < nextRef s \<longrightarrow>
            parentContext (heap (snd (run p s)) c) = parentContext (heap s c)) \<and>
         (\<forall>c cs. cs \<noteq> [] \<longrightarrow> \<not> path (heap (snd (run p s))) (Some c) cs (Some c)) \<and>
         (\<forall>c. isContext (snd (run p s)) c \<longrightarrow>
            (\<exists>cs. path (heap (snd (run p s))) (Some c) (cs @ [topLevelContext]) None)) \<and>
         (\<forall>a. parentContext (heap (snd (AsyncContext_new a s))
            (case a of None \<Rightarrow> nextRef s | Some c \<Rightarrow> c)) = current s) \<and>
         (\<forall>a c. c \<noteq> (case a of None \<Rightarrow> nextRef s | Some c \<Rightarrow> c) \<longrightarrow>
            heap (snd (AsyncContext_new a s)) c = heap s c)"
proof -
  let ?s' = "snd (run p s)"
  from assms have e: "extends s ?s'" by (rule run_extends)
  then have wf: "wellFormed ?s'" by (simp add: extends_def)
  from e have stable: "\<forall>c. c < nextRef s \<longrightarrow> parentContext (heap ?s' c) = parentContext (heap s c)"
    by (simp add: extends_def)
  from wf have dec: "q < c" if "parentContext (heap ?s' c) = Some q" for c q
    using that by (simp add: wellFormed_def)
  have acyclic: "\<forall>c cs. cs \<noteq> [] \<longrightarrow> \<not> path (heap ?s') (Some c) cs (Some c)"
    using path_decreases [of "heap ?s'", OF dec] by blast
  have chain: "\<forall>c. isContext ?s' c \<longrightarrow>
      (\<exists>cs. path (heap ?s') (Some c) (cs @ [topLevelContext]) None)"
    using wf by (blast intro: chain_to_root)
  have new: "\<forall>a. parentContext (heap (snd (AsyncContext_new a s))
            (case a of None \<Rightarrow> nextRef s | Some c \<Rightarrow> c)) = current s"
    "\<forall>a c. c \<noteq> (case a of None \<Rightarrow> nextRef s | Some c \<Rightarrow> c) \<longrightarrow>
            heap (snd (AsyncContext_new a s)) c = heap s c"
    by simp_all
  from stable acyclic chain new show ?thesis by blast
qed

lemma loaded_facts:
  "contextStack loaded = [0]"
  "nextRef loaded = 2"
  "parentContext (heap loaded c) = None"
  "lookupLocal (heap loaded c) local0 = None"
  "asyncHookCallbacks loaded = []"
  by (simp_all add: loaded_defs)

lemma wellFormed_loaded: "wellFormed loaded"
  by (simp add: wellFormed_def isContext_def loaded_facts topLevelContext_def)

text \<open>
  Claim C7 as stated fails: constructing a second \<open>AsyncContext\<close> around an object that
  is a context already runs \<open>onInitContext\<close> on it again. Around the top-level context
  object, while that context is current, its parent changes from absent to itself; the
  chain is then a cycle, and the getter of a local that is not bound never returns.
\<close>

theorem rewrap_overwrites_parent:
  "parentContext (heap loaded topLevelContext) = None \<and>
   parentContext (heap rewrapped topLevelContext) = Some topLevelContext \<and>
   path (heap rewrapped) (Some topLevelContext) [topLevelContext] (Some topLevelContext) \<and>
   get_value local0 rewrapped = None"
proof -
  have cur: "current loaded = Some topLevelContext"
    by (simp add: current_def loaded_facts topLevelContext_def)
  have p: "parentContext (heap rewrapped topLevelContext) = Some topLevelContext"
    by (simp add: rewrapped_def cur)
  have l: "lookupLocal (heap rewrapped topLevelContext) local0 = None"
    by (simp add: rewrapped_def lookupLocal_def)
       (simp add: loaded_facts [unfolded lookupLocal_def])
  have c: "current rewrapped = Some topLevelContext"
    by (simp add: rewrapped_def current_def loaded_facts topLevelContext_def)
  have "get_value local0 rewrapped = None"
    using value_loop_cycle [of "heap rewrapped" topLevelContext local0, OF p l]
    by (simp add: get_value_def c)
  with p show ?thesis by (simp add: loaded_facts)
qed

theorem parent_links_stable_witness:
  "wellFormed loaded \<and> scoped {topLevelContext} two_children \<and>
   isContext loaded topLevelContext \<and> nextRef loaded = 2 \<and>
   fst (run two_children loaded) = Inl (Thrown ''callback'') \<and>
   contextStack (snd (run two_children loaded)) = [0] \<and>
   parentContext (heap (snd (run two_children loaded)) 0) = None \<and>
   parentContext (heap (snd (run two_children loaded)) 1) = None \<and>
   parentContext (heap (snd (run two_children loaded)) 2) = Some 0 \<and>
   parentContext (heap (snd (run two_children loaded)) 3) = Some 0 \<and>
   parentContext (heap (snd (run two_children loaded)) 4) = Some 3 \<and>
   path (heap (snd (run two_children loaded))) (Some 4) [4, 3, 0] None \<and>
   \<not> path (heap (snd (run two_children loaded))) (Some 4) [4, 3, 0] (Some 4)"
proof -
  have sc: "scoped {topLevelContext} two_children"
    by (simp add: two_children_def)
  have ctx: "\<forall>c \<in> {topLevelContext}. isContext loaded c"
    by (simp add: isContext_def)
  note T = parent_links_stable [OF wellFormed_loaded sc ctx]
  have run: "fst (run two_children loaded) = Inl (Thrown ''callback'')"
    "contextStack (snd (run two_children loaded)) = [0]"
    "parentContext (heap (snd (run two_children loaded)) 2) = Some 0"
    "parentContext (heap (snd (run two_children loaded)) 3) = Some 0"
    "parentContext (heap (snd (run two_children loaded)) 4) = Some 3"
    by (simp_all add: two_children_def loaded_defs runInScope_def withValue_def withValue_body_def
        set_value_def onBeforeContext_def onAfterContext_def pop_def)
  from T have old: "\<forall>c. c < nextRef loaded \<longrightarrow>
      parentContext (heap (snd (run two_children loaded)) c) = parentContext (heap loaded c)"
    and acyclic: "\<forall>c cs. cs \<noteq> [] \<longrightarrow> \<not> path (heap (snd (run two_children loaded))) (Some c) cs (Some c)"
    by blast+
  from old have p0: "parentContext (heap (snd (run two_children loaded)) 0) = None"
    and p1: "parentContext (heap (snd (run two_children loaded)) 1) = None"
    by (simp_all add: loaded_facts)
  from acyclic have nc: "\<not> path (heap (snd (run two_children loaded))) (Some 4) [4, 3, 0] (Some 4)"
    by blast
  have pth: "path (heap (snd (run two_children loaded))) (Some 4) [4, 3, 0] None"
    by (simp add: run p0)
  from wellFormed_loaded sc ctx run p0 p1 nc pth show ?thesis
    by (simp add: loaded_facts)
qed

end
